theory Spec2Isabelle
  imports Main
begin

section \<open>Python values used by the graph controller\<close>

text \<open>
  Exceptions are values. \<open>KeyError\<close> carries its message, since the controller raises it
  with two different messages: one for a repeated name in a layer, one for a dependency
  without a parent in the graph.
\<close>

datatype error =
    KeyError string
  | IndexError
  | AttributeError string
  | TypeError
  | RecursionError

definition DuplicateNameError :: error where
  "DuplicateNameError = KeyError ''Dependency already added in layer''"

definition OrphanDependencyError :: error where
  "OrphanDependencyError = KeyError (''Can'' @ [CHR 0x27] @ ''t find any parent for dependency'')"

text \<open>
  A Python \<open>dict\<close> with string keys keeps insertion order: an association list.
  \<open>d[k] = v\<close> replaces the value of a present key in place and appends a new key.
\<close>

type_synonym 'v dict = "(string \<times> 'v) list"

definition dict_contains :: "'v dict \<Rightarrow> string \<Rightarrow> bool" where
  "dict_contains d k = (k \<in> set (map fst d))"

definition dict_get :: "'v dict \<Rightarrow> string \<Rightarrow> 'v option" where
  "dict_get d k = map_of d k"

definition dict_set :: "'v dict \<Rightarrow> string \<Rightarrow> 'v \<Rightarrow> 'v dict" where
  "dict_set d k v =
     (if dict_contains d k then map (\<lambda>(k', v'). if k' = k then (k', v) else (k', v')) d
      else d @ [(k, v)])"

definition dict_update :: "'v dict \<Rightarrow> 'v dict \<Rightarrow> 'v dict" where
  "dict_update d e = foldl (\<lambda>acc (k, v). dict_set acc k v) d e"

definition dict_values :: "'v dict \<Rightarrow> 'v list" where
  "dict_values d = map snd d"

text \<open>Python list indexing \<open>xs[i]\<close> and slicing \<open>xs[:n]\<close>, negative arguments included.\<close>

definition py_pos :: "'a list \<Rightarrow> int \<Rightarrow> nat" where
  "py_pos xs i = (if i < 0 then nat (int (length xs) + i) else nat i)"

definition py_index :: "'a list \<Rightarrow> int \<Rightarrow> error + 'a" where
  "py_index xs i =
     (if 0 \<le> i \<and> i < int (length xs) then Inr (xs ! nat i)
      else if i < 0 \<and> - int (length xs) \<le> i then Inr (xs ! nat (int (length xs) + i))
      else Inl IndexError)"

definition py_slice_to :: "'a list \<Rightarrow> int \<Rightarrow> 'a list" where
  "py_slice_to xs n = (if 0 \<le> n then take (nat n) xs else take (length xs - nat (- n)) xs)"

section \<open>Dependencies\<close>

text \<open>
  A dependency is a mutable object that the graph, the layers and other dependencies
  (through \<open>dependencies\<close>) refer to; child lists may be cyclic. Objects live in a store
  and are referred to by address. The class itself is declared outside the controller;
  the record has the attributes the controller reads: \<open>name\<close>, \<open>applied\<close>, \<open>used\<close>,
  \<open>locked\<close>, \<open>dependencies\<close>, \<open>constraint.sources\<close> (the names of the contributing
  parents) and whether the object is a \<open>RootDependency\<close>.
\<close>

type_synonym ref = nat

record Dependency =
  name :: string
  applied :: bool
  used :: bool
  locked :: bool
  dependencies :: "ref list"
  sources :: "string list"
  is_root :: bool

type_synonym store = "ref \<Rightarrow> Dependency"

section \<open>Layer\<close>

record Layer =
  level :: int
  mapping :: "ref dict"

definition Layer_get :: "Layer \<Rightarrow> string \<Rightarrow> ref option" where
  "Layer_get l n = dict_get (mapping l) n"

definition Layer_add :: "store \<Rightarrow> Layer \<Rightarrow> ref \<Rightarrow> error + Layer" where
  "Layer_add st l dep =
     (if dict_contains (mapping l) (name (st dep)) then Inl (KeyError ''Dependency already added in layer'')
      else Inr (l\<lparr>mapping := dict_set (mapping l) (name (st dep)) dep\<rparr>))"

fun Layer_add_all :: "store \<Rightarrow> Layer \<Rightarrow> ref list \<Rightarrow> error + Layer" where
  "Layer_add_all st l [] = Inr l"
| "Layer_add_all st l (dep # deps) =
     (case Layer_add st l dep of Inl e \<Rightarrow> Inl e | Inr l' \<Rightarrow> Layer_add_all st l' deps)"

definition Layer_init :: "store \<Rightarrow> int \<Rightarrow> ref list \<Rightarrow> error + Layer" where
  "Layer_init st lvl deps = Layer_add_all st \<lparr>level = lvl, mapping = []\<rparr> deps"

definition Layer_clear :: "store \<Rightarrow> Layer \<Rightarrow> Layer" where
  "Layer_clear st l = l\<lparr>mapping := filter (\<lambda>(n, dep). used (st dep)) (mapping l)\<rparr>"

definition Layer_contains_name :: "Layer \<Rightarrow> string \<Rightarrow> bool" where
  "Layer_contains_name l n = dict_contains (mapping l) n"

definition Layer_contains :: "store \<Rightarrow> Layer \<Rightarrow> ref \<Rightarrow> bool" where
  "Layer_contains st l dep = dict_contains (mapping l) (name (st dep))"

definition Layer_iter :: "Layer \<Rightarrow> ref list" where
  "Layer_iter l = dict_values (mapping l)"

text \<open>
  The uniqueness invariant of a layer: no key occurs twice, and every entry is stored
  under the name of its dependency.
\<close>

definition Layer_unique :: "store \<Rightarrow> Layer \<Rightarrow> bool" where
  "Layer_unique st l =
     (distinct (map fst (mapping l)) \<and> list_all (\<lambda>(n, dep). name (st dep) = n) (mapping l))"

section \<open>Graph\<close>

text \<open>
  The graph holds its layers, its roots and the conflict slot. The \<open>ChainMap\<close> overlay
  \<open>_deps\<close> is written by \<open>reset\<close> and \<open>add\<close> but read only by the properties \<open>names\<close>
  and \<open>deps\<close>; none of the operations below reads it, and it is left out of the record.
\<close>

record Graph =
  layers :: "Layer list"
  roots :: "ref list"
  conflict :: "ref option"

definition reset :: "store \<Rightarrow> Graph \<Rightarrow> error + Graph" where
  "reset st g =
     (case Layer_init st 0 (roots g) of
        Inl e \<Rightarrow> Inl e
      | Inr l \<Rightarrow> Inr (g\<lparr>layers := [l], conflict := None\<rparr>))"

definition clear :: "store \<Rightarrow> Graph \<Rightarrow> Graph" where
  "clear st g = g\<lparr>layers := take 1 (layers g) @ map (Layer_clear st) (drop 1 (layers g))\<rparr>"

definition add_level :: "store \<Rightarrow> Graph \<Rightarrow> ref \<Rightarrow> int \<Rightarrow> error + Graph" where
  "add_level st g dep lvl =
     (if lvl < int (length (layers g)) then
        (case py_index (layers g) lvl of
           Inl e \<Rightarrow> Inl e
         | Inr layer \<Rightarrow>
             (case Layer_add st layer dep of
                Inl e \<Rightarrow> Inl e
              | Inr layer' \<Rightarrow> Inr (g\<lparr>layers := (layers g)[py_pos (layers g) lvl := layer']\<rparr>)))
      else
        (case Layer_init st lvl [dep] of
           Inl e \<Rightarrow> Inl e
         | Inr layer \<Rightarrow> Inr (g\<lparr>layers := layers g @ [layer]\<rparr>)))"

fun find_parent_layer :: "store \<Rightarrow> string list \<Rightarrow> Layer list \<Rightarrow> Layer option" where
  "find_parent_layer st parents_names [] = None"
| "find_parent_layer st parents_names (layer # ls) =
     (if list_ex (\<lambda>parent. name (st parent) \<in> set parents_names) (Layer_iter layer)
      then Some layer
      else find_parent_layer st parents_names ls)"

definition add :: "store \<Rightarrow> Graph \<Rightarrow> ref \<Rightarrow> int option \<Rightarrow> error + Graph" where
  "add st g dep lvl =
     (if is_root (st dep) then
        (case py_index (layers g) 0 of
           Inl e \<Rightarrow> Inl e
         | Inr l0 \<Rightarrow>
             (case Layer_add st l0 dep of
                Inl e \<Rightarrow> Inl e
              | Inr l0' \<Rightarrow> Inr (g\<lparr>layers := (layers g)[0 := l0'], roots := roots g @ [dep]\<rparr>)))
      else
        (case lvl of
           Some k \<Rightarrow> add_level st g dep k
         | None \<Rightarrow>
             (case find_parent_layer st (sources (st dep)) (layers g) of
                Some layer \<Rightarrow> add_level st g dep (level layer + 1)
              | None \<Rightarrow> Inl (KeyError (''Can'' @ [CHR 0x27] @ ''t find any parent for dependency'')))))"

definition get_leafs :: "store \<Rightarrow> Graph \<Rightarrow> int option \<Rightarrow> ref list" where
  "get_leafs st g lvl =
     (let ls = (case lvl of None \<Rightarrow> layers g | Some k \<Rightarrow> py_slice_to (layers g) (k + 1))
      in concat (map (\<lambda>layer. filter (\<lambda>dep. \<not> applied (st dep) \<and> used (st dep)) (Layer_iter layer)) ls))"

definition get_layer_level :: "Graph \<Rightarrow> int \<Rightarrow> error + Layer" where
  "get_layer_level g k = py_index (layers g) k"

definition get_layer :: "store \<Rightarrow> Graph \<Rightarrow> ref \<Rightarrow> Layer option" where
  "get_layer st g dep = find (\<lambda>layer. Layer_contains st layer dep) (rev (layers g))"

fun first_match :: "string \<Rightarrow> Layer list \<Rightarrow> ref option" where
  "first_match n [] = None"
| "first_match n (layer # ls) =
     (case Layer_get layer n of Some dep \<Rightarrow> Some dep | None \<Rightarrow> first_match n ls)"

definition get :: "Graph \<Rightarrow> string \<Rightarrow> ref option" where
  "get g n = first_match n (rev (layers g))"

text \<open>
  \<open>get_children\<close> calls itself once per graphed child, with no visited set passed down.
  The first argument is the number of nested calls the interpreter still allows; a call
  beyond it raises \<open>RecursionError\<close>.
\<close>

fun get_children :: "nat \<Rightarrow> store \<Rightarrow> Graph \<Rightarrow> ref \<Rightarrow> error + ref dict"
  and get_children_loop :: "nat \<Rightarrow> store \<Rightarrow> Graph \<Rightarrow> ref list \<Rightarrow> ref dict \<Rightarrow> error + ref dict"
where
  "get_children 0 st g dep = Inl RecursionError"
| "get_children (Suc depth) st g dep =
     (if \<not> locked (st dep) then Inr []
      else get_children_loop depth st g (dependencies (st dep)) [])"
| "get_children_loop depth st g [] result = Inr result"
| "get_children_loop depth st g (child # cs) result =
     (case get_layer st g child of
        None \<Rightarrow> get_children_loop depth st g cs result
      | Some layer \<Rightarrow>
          (let result' = (if dict_contains result (name (st child)) then result
                          else dict_set result (name (st child)) child)
           in case get_children depth st g child of
                Inl e \<Rightarrow> Inl e
              | Inr sub \<Rightarrow> get_children_loop depth st g cs (dict_update result' sub)))"

text \<open>
  \<open>get_parents\<close>: the innermost loop looks through the children of one candidate parent
  (\<open>continue\<close>, \<open>continue\<close>, then store and \<open>break\<close>); the three outer loops run over the
  starting dependencies, the layers and the entries of each layer.
\<close>

fun lists_child :: "store \<Rightarrow> string list \<Rightarrow> ref \<Rightarrow> ref list \<Rightarrow> bool" where
  "lists_child st avoid dep [] = False"
| "lists_child st avoid dep (children # cs) =
     (if name (st children) \<noteq> name (st dep) then lists_child st avoid dep cs
      else if name (st children) \<in> set avoid then lists_child st avoid dep cs
      else True)"

definition collect_parents :: "store \<Rightarrow> Graph \<Rightarrow> ref list \<Rightarrow> string list \<Rightarrow> ref dict" where
  "collect_parents st g deps avoid =
     foldl (\<lambda>parents dep.
        foldl (\<lambda>parents layer.
           foldl (\<lambda>parents parent.
              if lists_child st avoid dep (dependencies (st parent))
              then dict_set parents (name (st parent)) parent
              else parents)
           parents (Layer_iter layer))
        parents (layers g))
     [] deps"

definition child_names :: "store \<Rightarrow> Graph \<Rightarrow> string set" where
  "child_names st g =
     (\<Union>layer \<in> set (layers g). \<Union>parent \<in> set (Layer_iter layer).
        (\<lambda>c. name (st c)) ` set (dependencies (st parent)))"

section \<open>VCS links\<close>

text \<open>
  The pattern of \<open>VCSLink.rex\<close> uses literals, single characters of a class, greedy and
  lazy repetition (one or more) of a character class, optional groups, named groups,
  alternatives and the end anchor. Characters are those of \<open>string\<close>, the code points
  below 256.
\<close>

datatype rx =
    Lit string
  | Cls "char \<Rightarrow> bool"
  | Plus "char \<Rightarrow> bool"
  | PlusLazy "char \<Rightarrow> bool"
  | Opt rx
  | Grp string rx
  | Seq rx rx
  | Alt rx rx
  | Eos

type_synonym groups = "string \<rightharpoonup> string"

text \<open>
  A backtracking matcher in continuation-passing style, as \<open>re\<close> works: each construct
  tries its alternatives in priority order and hands the rest of the input and the
  groups captured so far to the continuation; the first alternative on which the
  continuation succeeds wins. A greedy repetition tries the longest run first, a lazy
  one the shortest. \<open>$\<close> matches at the end of the input and before a final newline.
\<close>

fun first_some :: "(nat \<Rightarrow> 'r option) \<Rightarrow> nat list \<Rightarrow> 'r option" where
  "first_some f [] = None"
| "first_some f (n # ns) = (case f n of Some r \<Rightarrow> Some r | None \<Rightarrow> first_some f ns)"

fun rmatch :: "rx \<Rightarrow> string \<Rightarrow> groups \<Rightarrow> (string \<Rightarrow> groups \<Rightarrow> groups option) \<Rightarrow> groups option" where
  "rmatch (Lit l) s g k = (if take (length l) s = l then k (drop (length l) s) g else None)"
| "rmatch (Cls c) s g k = (case s of [] \<Rightarrow> None | x # s' \<Rightarrow> if c x then k s' g else None)"
| "rmatch (Plus c) s g k =
     first_some (\<lambda>n. k (drop n s) g) (rev [1 ..< Suc (length (takeWhile c s))])"
| "rmatch (PlusLazy c) s g k =
     first_some (\<lambda>n. k (drop n s) g) [1 ..< Suc (length (takeWhile c s))]"
| "rmatch (Opt r) s g k = (case rmatch r s g k of Some m \<Rightarrow> Some m | None \<Rightarrow> k s g)"
| "rmatch (Grp n r) s g k =
     rmatch r s g (\<lambda>s' g'. k s' (g'(n \<mapsto> take (length s - length s') s)))"
| "rmatch (Seq a b) s g k = rmatch a s g (\<lambda>s' g'. rmatch b s' g' k)"
| "rmatch (Alt a b) s g k = (case rmatch a s g k of Some m \<Rightarrow> Some m | None \<Rightarrow> rmatch b s g k)"
| "rmatch Eos s g k = (if s = [] \<or> s = [CHR 0x0A] then k s g else None)"

text \<open>The character classes of the pattern.\<close>

definition lower :: "char \<Rightarrow> bool" where
  "lower c = (97 \<le> (of_char c :: nat) \<and> (of_char c :: nat) \<le> 122)"

definition dot :: "char \<Rightarrow> bool" where
  "dot c = (c \<noteq> CHR 0x0A)"

definition not_slash :: "char \<Rightarrow> bool" where
  "not_slash c = (c \<noteq> CHR ''/'')"

definition colon_or_slash :: "char \<Rightarrow> bool" where
  "colon_or_slash c = (c = CHR '':'' \<or> c = CHR ''/'')"

definition space :: "char \<Rightarrow> bool" where
  "space c = ((of_char c :: nat) \<in> {9, 10, 11, 12, 13, 28, 29, 30, 31, 32, 133, 160})"

definition project_char :: "char \<Rightarrow> bool" where
  "project_char c = (\<not> space c \<and> c \<noteq> CHR ''#'')"

definition rex :: rx where
  "rex =
     Seq (Opt (Seq (Grp ''vcs'' (Plus lower)) (Lit ''+'')))
    (Seq (Opt (Seq (Grp ''protocol'' (Alt (Lit ''ssh'') (Alt (Lit ''https'') (Lit ''http'')))) (Lit ''://'')))
    (Seq (Opt (Seq (Grp ''user'' (Plus dot)) (Lit ''@'')))
    (Seq (Seq (Grp ''server'' (Plus not_slash)) (Cls colon_or_slash))
    (Seq (Seq (Grp ''author'' (Plus dot)) (Lit ''/''))
    (Seq (Grp ''project'' (PlusLazy project_char))
    (Seq (Opt (Grp ''ext'' (Lit ''.git'')))
    (Seq (Opt (Seq (Lit ''@'') (Grp ''rev'' (Plus dot))))
    (Seq (Opt (Seq (Lit ''#egg='') (Grp ''name'' (Plus dot))))
         Eos))))))))"

text \<open>
  \<open>rex.search(link)\<close>: the pattern starts with \<open>^\<close> and is compiled without flags, so a
  match can only start at the first character. The result is the dictionary of the
  groups that took part in the match.
\<close>

definition rex_search :: "string \<Rightarrow> groups option" where
  "rex_search link = rmatch rex link Map.empty (\<lambda>s' g'. Some g')"

text \<open>\<open>rex_hash.fullmatch\<close>: exactly forty characters, each a hexadecimal digit.\<close>

definition hex_digit :: "char \<Rightarrow> bool" where
  "hex_digit c = (c \<in> set ''abcdefABCDEF0123456789'')"

definition rex_hash_fullmatch :: "string \<Rightarrow> bool" where
  "rex_hash_fullmatch s = (length s = 40 \<and> list_all hex_digit s)"

record VCSLink =
  server :: string
  author :: string
  project :: string
  vcs :: string
  protocol :: string
  user :: "string option"
  ext :: "string option"
  link_rev :: "string option"
  link_name :: "string option"

text \<open>
  The constructor generated by \<open>attr.s\<close>, called with keyword arguments: \<open>server\<close>,
  \<open>author\<close> and \<open>project\<close> have no default and a call without one of them raises
  \<open>TypeError\<close>.
\<close>

definition VCSLink_init :: "groups \<Rightarrow> error + VCSLink" where
  "VCSLink_init kw =
     (case (kw ''server'', kw ''author'', kw ''project'') of
        (Some s, Some a, Some p) \<Rightarrow>
          Inr \<lparr>server = s, author = a, project = p,
               vcs = (case kw ''vcs'' of Some v \<Rightarrow> v | None \<Rightarrow> ''git''),
               protocol = (case kw ''protocol'' of Some v \<Rightarrow> v | None \<Rightarrow> ''ssh''),
               user = kw ''user'', ext = kw ''ext'',
               link_rev = kw ''rev'', link_name = kw ''name''\<rparr>
      | _ \<Rightarrow> Inl TypeError)"

text \<open>
  \<open>parse(link, vcs, rev, name)\<close>. Reading \<open>parsed['project']\<close> raises \<open>KeyError\<close> when
  the key is missing. The second test of \<open>'name' not in parsed\<close> comes after the key has
  been set and never holds.
\<close>

definition parse :: "string \<Rightarrow> string \<Rightarrow> string option \<Rightarrow> string option \<Rightarrow> error + VCSLink option" where
  "parse link vcs_arg rev_arg name_arg =
     (case rex_search link of
        None \<Rightarrow> Inr None
      | Some parsed \<Rightarrow>
          (let parsed1 = (if parsed ''vcs'' = None then parsed(''vcs'' \<mapsto> vcs_arg) else parsed)
           in if parsed1 ''name'' = None \<and> parsed1 ''project'' = None then Inl (KeyError ''project'')
              else
                (let parsed2 = (if parsed1 ''name'' = None
                                then parsed1(''name'' := parsed1 ''project'') else parsed1);
                     parsed3 = (case rev_arg of
                                  Some r \<Rightarrow> if r \<noteq> [] then parsed2(''rev'' \<mapsto> r) else parsed2
                                | None \<Rightarrow> parsed2)
                 in case VCSLink_init parsed3 of
                      Inl e \<Rightarrow> Inl e
                    | Inr l \<Rightarrow> Inr (Some l))))"

definition commit :: "VCSLink \<Rightarrow> string option" where
  "commit l =
     (case link_rev l of
        None \<Rightarrow> None
      | Some r \<Rightarrow> if r = [] then None else if rex_hash_fullmatch r then Some r else None)"

definition short :: "VCSLink \<Rightarrow> string" where
  "short l =
     (if protocol l \<noteq> ''ssh'' then protocol l @ ''://'' else [])
     @ (case user l of Some u \<Rightarrow> if u \<noteq> [] then u @ ''@'' else [] | None \<Rightarrow> [])
     @ server l
     @ (if protocol l = ''ssh'' then '':'' else ''/'')
     @ author l @ ''/'' @ project l
     @ (case ext l of Some e \<Rightarrow> e | None \<Rightarrow> [])"

text \<open>
  Attribute lookup on a link, for the attributes and properties with a string (or
  \<open>None\<close>) value: the nine fields and the properties \<open>commit\<close> and \<open>short\<close>. The class
  further has \<open>long\<close>, \<open>parse\<close>, \<open>rex\<close>, \<open>rex_hash\<close> and \<open>__str__\<close>; any other name
  raises \<open>AttributeError\<close>.
\<close>

definition getattr :: "VCSLink \<Rightarrow> string \<Rightarrow> error + string option" where
  "getattr l a =
     (if a = ''server'' then Inr (Some (server l))
      else if a = ''author'' then Inr (Some (author l))
      else if a = ''project'' then Inr (Some (project l))
      else if a = ''vcs'' then Inr (Some (vcs l))
      else if a = ''protocol'' then Inr (Some (protocol l))
      else if a = ''user'' then Inr (user l)
      else if a = ''ext'' then Inr (ext l)
      else if a = ''rev'' then Inr (link_rev l)
      else if a = ''name'' then Inr (link_name l)
      else if a = ''commit'' then Inr (commit l)
      else if a = ''short'' then Inr (Some (short l))
      else Inl (AttributeError a))"

text \<open>
  \<open>long\<close> reads \<open>self.link\<close>. Concatenating a string with \<open>None\<close> raises \<open>TypeError\<close>.
\<close>

definition long :: "VCSLink \<Rightarrow> error + string" where
  "long l =
     (case getattr l ''link'' of
        Inl e \<Rightarrow> Inl e
      | Inr None \<Rightarrow> Inl TypeError
      | Inr (Some lk) \<Rightarrow>
          Inr (vcs l @ ''+'' @ lk
               @ (case link_rev l of Some r \<Rightarrow> if r \<noteq> [] then ''@'' @ r else [] | None \<Rightarrow> [])
               @ (case link_name l of Some n \<Rightarrow> if n \<noteq> [] then ''#egg='' @ n else [] | None \<Rightarrow> [])))"

section \<open>Termination of \<open>get_parents\<close>\<close>

text \<open>
  \<open>is_parent_of\<close> says when a graphed dependency is collected for a starting dependency:
  it is an entry of some layer and one of its children carries the name of the starting
  dependency, a name that is not avoided. Each recursive call of \<open>get_parents\<close> adds the
  names of its starting dependencies to \<open>avoid\<close>, and it recurses only after it has found
  a parent, that is, only when one of these names is the name of a child of a graphed
  dependency and was not avoided before: the number of such names goes down.
\<close>

definition is_parent_of :: "store \<Rightarrow> Graph \<Rightarrow> string list \<Rightarrow> ref \<Rightarrow> ref \<Rightarrow> bool" where
  "is_parent_of st g avoid dep parent \<longleftrightarrow>
     (\<exists>layer \<in> set (layers g). parent \<in> set (Layer_iter layer))
     \<and> (\<exists>c \<in> set (dependencies (st parent)). name (st c) = name (st dep) \<and> name (st dep) \<notin> set avoid)"

lemma foldl_unchanged: "(\<And>a x. x \<in> set xs \<Longrightarrow> f a x = a) \<Longrightarrow> foldl f a xs = a"
  by (induction xs arbitrary: a) auto

lemma lists_child_iff:
  "lists_child st avoid dep cs \<longleftrightarrow>
     (\<exists>c \<in> set cs. name (st c) = name (st dep) \<and> name (st c) \<notin> set avoid)"
  by (induction cs) auto

lemma collect_parents_empty:
  assumes "\<And>dep parent. dep \<in> set deps \<Longrightarrow> \<not> is_parent_of st g avoid dep parent"
  shows "collect_parents st g deps avoid = []"
proof -
  have no: "\<not> lists_child st avoid dep (dependencies (st parent))"
    if "dep \<in> set deps" "layer \<in> set (layers g)" "parent \<in> set (Layer_iter layer)"
    for dep layer parent
    using assms[OF that(1), of parent] that(2,3)
    unfolding is_parent_of_def lists_child_iff by metis
  show ?thesis
    unfolding collect_parents_def
    by (intro foldl_unchanged) (simp add: no)
qed

lemma collect_parents_nonempty:
  assumes "collect_parents st g deps avoid \<noteq> []"
  shows "\<exists>dep \<in> set deps. name (st dep) \<in> child_names st g \<and> name (st dep) \<notin> set avoid"
proof -
  from assms obtain dep parent where dp: "dep \<in> set deps" "is_parent_of st g avoid dep parent"
    using collect_parents_empty by blast
  from dp(2) obtain layer c where
    "layer \<in> set (layers g)" "parent \<in> set (Layer_iter layer)"
    "c \<in> set (dependencies (st parent))" "name (st c) = name (st dep)" "name (st dep) \<notin> set avoid"
    unfolding is_parent_of_def by blast
  note w = this
  from w(1,2,3) have "name (st c) \<in> child_names st g"
    unfolding child_names_def by blast
  with w(4,5) dp(1) show ?thesis by auto
qed

lemma finite_child_names: "finite (child_names st g)"
  by (simp add: child_names_def)

function get_parents :: "store \<Rightarrow> Graph \<Rightarrow> ref list \<Rightarrow> string list \<Rightarrow> ref dict" where
  "get_parents st g deps avoid =
     (if collect_parents st g deps avoid \<noteq> []
      then dict_update (collect_parents st g deps avoid)
             (get_parents st g (dict_values (collect_parents st g deps avoid))
                (avoid @ map (\<lambda>dep. name (st dep)) deps))
      else collect_parents st g deps avoid)"
  by pat_completeness auto
termination
proof (relation "measure (\<lambda>(st, g, deps, avoid). card (child_names st g - set avoid))")
  show "wf (measure (\<lambda>(st, g, deps, avoid). card (child_names st g - set avoid)))" by simp
next
  fix st g deps avoid
  assume ne: "collect_parents st g deps avoid \<noteq> []"
  then obtain dep where d: "dep \<in> set deps" "name (st dep) \<in> child_names st g" "name (st dep) \<notin> set avoid"
    using collect_parents_nonempty by blast
  have "child_names st g - set (avoid @ map (\<lambda>dep. name (st dep)) deps) \<subset> child_names st g - set avoid"
    using d by auto
  then have "card (child_names st g - set (avoid @ map (\<lambda>dep. name (st dep)) deps))
           < card (child_names st g - set avoid)"
    by (intro psubset_card_mono) (simp_all add: finite_child_names)
  then show "((st, g, dict_values (collect_parents st g deps avoid), avoid @ map (\<lambda>dep. name (st dep)) deps),
              (st, g, deps, avoid))
             \<in> measure (\<lambda>(st, g, deps, avoid). card (child_names st g - set avoid))"
    by simp
qed

section \<open>An example graph\<close>

text \<open>
  A root \<open>app\<close> with the children \<open>a\<close> and \<open>b\<close>, which depend on each other; a second
  dependency named \<open>a\<close>, no longer used, one layer deeper; a dependency \<open>c\<close> whose
  only contributing parent is not in the graph; and a third dependency named \<open>a\<close>,
  required by \<open>b\<close> and not yet in the graph. The addresses are 0 to 5, in this order.
\<close>

definition ex_store :: store where
  "ex_store r =
     (if r = 0 then
        \<lparr>name = ''app'', applied = False, used = True, locked = True,
         dependencies = [1, 2], sources = [], is_root = True\<rparr>
      else if r = 1 then
        \<lparr>name = ''a'', applied = False, used = True, locked = True,
         dependencies = [2], sources = [''app'', ''b''], is_root = False\<rparr>
      else if r = 2 then
        \<lparr>name = ''b'', applied = True, used = True, locked = True,
         dependencies = [1], sources = [''app'', ''a''], is_root = False\<rparr>
      else if r = 3 then
        \<lparr>name = ''a'', applied = False, used = False, locked = False,
         dependencies = [], sources = [''b''], is_root = False\<rparr>
      else if r = 4 then
        \<lparr>name = ''c'', applied = False, used = True, locked = False,
         dependencies = [], sources = [''zzz''], is_root = False\<rparr>
      else
        \<lparr>name = ''a'', applied = False, used = True, locked = False,
         dependencies = [], sources = [''b''], is_root = False\<rparr>)"

definition ex_layer0 :: Layer where
  "ex_layer0 = \<lparr>level = 0, mapping = [(''app'', 0)]\<rparr>"

definition ex_layer1 :: Layer where
  "ex_layer1 = \<lparr>level = 1, mapping = [(''a'', 1), (''b'', 2)]\<rparr>"

definition ex_layer2 :: Layer where
  "ex_layer2 = \<lparr>level = 2, mapping = [(''a'', 3)]\<rparr>"

definition ex_graph :: Graph where
  "ex_graph = \<lparr>layers = [ex_layer0, ex_layer1, ex_layer2], roots = [0], conflict = None\<rparr>"

text \<open>A graph in which the dependency \<open>c\<close> has been added at two levels.\<close>

definition ex_twice :: Graph where
  "ex_twice =
     \<lparr>layers = [ex_layer0, \<lparr>level = 1, mapping = [(''c'', 4)]\<rparr>, \<lparr>level = 2, mapping = [(''c'', 4)]\<rparr>],
      roots = [0], conflict = None\<rparr>"

text \<open>A layer holds a parent of a dependency when one of its entries is named among the
  contributing parents of the dependency.\<close>

definition holds_parent_of :: "store \<Rightarrow> ref \<Rightarrow> Layer \<Rightarrow> bool" where
  "holds_parent_of st dep layer =
     (\<exists>parent \<in> set (Layer_iter layer). name (st parent) \<in> set (sources (st dep)))"

text \<open>The frontier test of \<open>get_leafs\<close>.\<close>

definition is_leaf :: "store \<Rightarrow> ref \<Rightarrow> bool" where
  "is_leaf st dep = (used (st dep) \<and> \<not> applied (st dep))"

lemma ex_store_at [simp]:
  "ex_store 0 = \<lparr>name = ''app'', applied = False, used = True, locked = True,
         dependencies = [1, 2], sources = [], is_root = True\<rparr>"
  "ex_store (Suc 0) = \<lparr>name = ''a'', applied = False, used = True, locked = True,
         dependencies = [2], sources = [''app'', ''b''], is_root = False\<rparr>"
  "ex_store 2 = \<lparr>name = ''b'', applied = True, used = True, locked = True,
         dependencies = [1], sources = [''app'', ''a''], is_root = False\<rparr>"
  "ex_store 3 = \<lparr>name = ''a'', applied = False, used = False, locked = False,
         dependencies = [], sources = [''b''], is_root = False\<rparr>"
  "ex_store 4 = \<lparr>name = ''c'', applied = False, used = True, locked = False,
         dependencies = [], sources = [''zzz''], is_root = False\<rparr>"
  "ex_store 5 = \<lparr>name = ''a'', applied = False, used = True, locked = False,
         dependencies = [], sources = [''b''], is_root = False\<rparr>"
  by (simp_all add: ex_store_def)

section \<open>Layers\<close>

lemma dict_contains_map_of: "dict_contains d k \<longleftrightarrow> map_of d k \<noteq> None"
  by (simp add: dict_contains_def map_of_eq_None_iff)

lemma dict_set_absent: "\<not> dict_contains d k \<Longrightarrow> dict_set d k v = d @ [(k, v)]"
  by (simp add: dict_set_def)

lemma Layer_add_Inr:
  "Layer_add st l dep = Inr l' \<Longrightarrow>
     \<not> dict_contains (mapping l) (name (st dep)) \<and> l' = l\<lparr>mapping := mapping l @ [(name (st dep), dep)]\<rparr>"
  by (auto simp: Layer_add_def dict_set_absent split: if_splits)

lemma Layer_add_keeps_unique:
  "Layer_unique st l \<Longrightarrow> Layer_add st l dep = Inr l' \<Longrightarrow> Layer_unique st l'"
  by (drule Layer_add_Inr) (auto simp: Layer_unique_def dict_contains_def)

lemma Layer_add_all_keeps_unique:
  "Layer_unique st l \<Longrightarrow> Layer_add_all st l deps = Inr l' \<Longrightarrow> Layer_unique st l'"
proof (induction deps arbitrary: l)
  case Nil
  then show ?case by simp
next
  case (Cons d ds)
  then show ?case
    by (auto split: sum.splits dest: Layer_add_keeps_unique)
qed

lemma Layer_init_unique: "Layer_init st lvl deps = Inr l' \<Longrightarrow> Layer_unique st l'"
  unfolding Layer_init_def
  by (rule Layer_add_all_keeps_unique[rotated]) (auto simp: Layer_unique_def)

lemma Layer_clear_keeps_unique: "Layer_unique st l \<Longrightarrow> Layer_unique st (Layer_clear st l)"
  by (auto simp: Layer_unique_def Layer_clear_def distinct_map_filter list_all_iff)

text \<open>
  C4. \<open>Layer.add\<close> fails with the duplicate-name error (the \<open>KeyError\<close> "Dependency
  already added in layer") whenever the layer already holds the name of the dependency,
  and otherwise appends the dependency under its name. So every layer operation keeps
  the names of a layer unique: \<open>add\<close> when it succeeds, \<open>clear\<close>, and the constructor,
  which adds its arguments one by one.
\<close>

theorem Layer_add_duplicate_or_insert:
  "(dict_contains (mapping l) (name (st dep)) \<longrightarrow> Layer_add st l dep = Inl DuplicateNameError)
   \<and> (\<not> dict_contains (mapping l) (name (st dep)) \<longrightarrow>
        Layer_add st l dep = Inr (l\<lparr>mapping := mapping l @ [(name (st dep), dep)]\<rparr>))
   \<and> (\<forall>l'. Layer_unique st l \<and> Layer_add st l dep = Inr l' \<longrightarrow>
          Layer_unique st l' \<and> Layer_get l' (name (st dep)) = Some dep)
   \<and> (Layer_unique st l \<longrightarrow> Layer_unique st (Layer_clear st l))
   \<and> (\<forall>l'. Layer_init st lvl deps = Inr l' \<longrightarrow> Layer_unique st l')"
proof (intro conjI allI impI)
  show "Layer_add st l dep = Inl DuplicateNameError" if "dict_contains (mapping l) (name (st dep))"
    using that by (simp add: Layer_add_def DuplicateNameError_def)
  show "Layer_add st l dep = Inr (l\<lparr>mapping := mapping l @ [(name (st dep), dep)]\<rparr>)"
    if "\<not> dict_contains (mapping l) (name (st dep))"
    using that by (simp add: Layer_add_def dict_set_absent)
  show "Layer_unique st l'" if "Layer_unique st l \<and> Layer_add st l dep = Inr l'" for l'
    using that Layer_add_keeps_unique by blast
  show "Layer_get l' (name (st dep)) = Some dep" if "Layer_unique st l \<and> Layer_add st l dep = Inr l'" for l'
  proof -
    from that have a: "\<not> dict_contains (mapping l) (name (st dep))"
      and b: "l' = l\<lparr>mapping := mapping l @ [(name (st dep), dep)]\<rparr>"
      using Layer_add_Inr by blast+
    from a have "map_of (mapping l) (name (st dep)) = None"
      by (simp add: dict_contains_map_of)
    then show ?thesis
      by (simp add: b Layer_get_def dict_get_def map_add_def)
  qed
  show "Layer_unique st (Layer_clear st l)" if "Layer_unique st l"
    using that by (rule Layer_clear_keeps_unique)
  show "Layer_unique st l'" if "Layer_init st lvl deps = Inr l'" for l'
    using that by (rule Layer_init_unique)
qed

theorem Layer_add_duplicate_or_insert_witness:
  "dict_contains (mapping ex_layer1) (name (ex_store 3))
   \<and> Layer_add ex_store ex_layer1 3 = Inl DuplicateNameError
   \<and> \<not> dict_contains (mapping ex_layer1) (name (ex_store 4))
   \<and> Layer_add ex_store ex_layer1 4 = Inr \<lparr>level = 1, mapping = [(''a'', 1), (''b'', 2), (''c'', 4)]\<rparr>
   \<and> Layer_unique ex_store ex_layer1
   \<and> Layer_unique ex_store \<lparr>level = 1, mapping = [(''a'', 1), (''b'', 2), (''c'', 4)]\<rparr>
   \<and> Layer_get \<lparr>level = 1, mapping = [(''a'', 1), (''b'', 2), (''c'', 4)]\<rparr> ''c'' = Some 4
   \<and> Layer_unique ex_store (Layer_clear ex_store ex_layer1)
   \<and> Layer_init ex_store 1 [1, 2] = Inr ex_layer1"
proof -
  have c3: "dict_contains (mapping ex_layer1) (name (ex_store 3))"
    by (simp add: dict_contains_def ex_layer1_def)
  have c4: "\<not> dict_contains (mapping ex_layer1) (name (ex_store 4))"
    by (simp add: dict_contains_def ex_layer1_def)
  have u: "Layer_unique ex_store ex_layer1"
    by (simp add: Layer_unique_def ex_layer1_def)
  have i: "Layer_init ex_store 1 [1, 2] = Inr ex_layer1"
    by (simp add: Layer_init_def Layer_add_def dict_contains_def dict_set_def ex_layer1_def)
  note t3 = Layer_add_duplicate_or_insert[where l = ex_layer1 and st = ex_store and dep = 3]
  note t4 = Layer_add_duplicate_or_insert[where l = ex_layer1 and st = ex_store and dep = 4
      and lvl = 1 and deps = "[1, 2]"]
  from t3 c3 have a3: "Layer_add ex_store ex_layer1 3 = Inl DuplicateNameError" by blast
  from t4 c4 have a4: "Layer_add ex_store ex_layer1 4 =
      Inr (ex_layer1\<lparr>mapping := mapping ex_layer1 @ [(name (ex_store 4), 4)]\<rparr>)" by blast
  then have a4': "Layer_add ex_store ex_layer1 4 = Inr \<lparr>level = 1, mapping = [(''a'', 1), (''b'', 2), (''c'', 4)]\<rparr>"
    by (simp add: ex_layer1_def)
  from t4 u a4' have "Layer_unique ex_store \<lparr>level = 1, mapping = [(''a'', 1), (''b'', 2), (''c'', 4)]\<rparr>
     \<and> Layer_get \<lparr>level = 1, mapping = [(''a'', 1), (''b'', 2), (''c'', 4)]\<rparr> (name (ex_store 4)) = Some 4"
    by blast
  moreover from t4 u have "Layer_unique ex_store (Layer_clear ex_store ex_layer1)" by blast
  ultimately show ?thesis using c3 c4 a3 a4' u i by simp
qed

section \<open>Lookup by name\<close>

lemma first_match_rev_deepest:
  "j < length ls \<Longrightarrow> Layer_get (ls ! j) n = Some b \<Longrightarrow>
   (\<forall>k. j < k \<and> k < length ls \<longrightarrow> Layer_get (ls ! k) n = None) \<Longrightarrow>
   first_match n (rev ls) = Some b"
proof (induction ls rule: rev_induct)
  case Nil
  then show ?case by simp
next
  case (snoc l ls)
  show ?case
  proof (cases "j = length ls")
    case True
    with snoc.prems(2) show ?thesis by simp
  next
    case False
    with snoc.prems(1) have jl: "j < length ls" by simp
    have last_none: "Layer_get l n = None"
      using snoc.prems(3)[rule_format, of "length ls"] jl by simp
    have "first_match n (rev ls) = Some b"
    proof (rule snoc.IH[OF jl])
      show "Layer_get (ls ! j) n = Some b"
        using snoc.prems(2) jl by (simp add: nth_append)
      show "\<forall>k. j < k \<and> k < length ls \<longrightarrow> Layer_get (ls ! k) n = None"
        using snoc.prems(3) by (auto simp: nth_append split: if_splits)
    qed
    with last_none show ?thesis by simp
  qed
qed

text \<open>
  C3. When dependencies of one name are stored in the layers \<open>i < j\<close>, and in no layer
  deeper than \<open>j\<close>, \<open>get\<close> returns the one stored in layer \<open>j\<close>: the layers are scanned
  from the deepest, and the first match is returned.
\<close>

theorem get_returns_deepest_layer:
  assumes "i < j" and "j < length (layers g)"
    and "Layer_get (layers g ! i) n = Some a"
    and "Layer_get (layers g ! j) n = Some b"
    and "\<forall>k. j < k \<and> k < length (layers g) \<longrightarrow> \<not> Layer_contains_name (layers g ! k) n"
  shows "get g n = Some b"
  unfolding get_def
  using assms(2,4,5)
  by (intro first_match_rev_deepest)
     (auto simp: Layer_contains_name_def dict_contains_map_of Layer_get_def dict_get_def)

theorem get_returns_deepest_layer_witness:
  "Layer_get (layers ex_graph ! 1) ''a'' = Some 1
   \<and> Layer_get (layers ex_graph ! 2) ''a'' = Some 3
   \<and> get ex_graph ''a'' = Some 3"
proof -
  have a: "Layer_get (layers ex_graph ! 1) ''a'' = Some 1"
    by (simp add: ex_graph_def ex_layer1_def Layer_get_def dict_get_def)
  have b: "Layer_get (layers ex_graph ! 2) ''a'' = Some 3"
    by (simp add: ex_graph_def ex_layer2_def Layer_get_def dict_get_def)
  have len: "length (layers ex_graph) = 3"
    by (simp add: ex_graph_def)
  have h: "\<forall>k. 2 < k \<and> k < length (layers ex_graph) \<longrightarrow> \<not> Layer_contains_name (layers ex_graph ! k) ''a''"
    using len by auto
  have "(1::nat) < 2" and "2 < length (layers ex_graph)"
    using len by simp_all
  then have "get ex_graph ''a'' = Some 3"
    using a b h by (rule get_returns_deepest_layer)
  with a b show ?thesis by simp
qed

section \<open>Pruning\<close>

lemma clear_layers_nth:
  "i < length (layers g) \<Longrightarrow>
   layers (clear st g) ! i = (if i = 0 then layers g ! 0 else Layer_clear st (layers g ! i))"
  by (cases "layers g") (auto simp: clear_def nth_Cons')

text \<open>
  C9. After \<open>clear\<close> (the pruning pass), every dependency left in a layer other than
  layer 0 is used, layer 0 is as before, and nothing comes back: the entries of every
  layer are among its entries before, and a second pass changes nothing. The number of
  layers, the roots and the conflict slot stay as they are.
\<close>

theorem clear_keeps_only_used:
  "length (layers (clear st g)) = length (layers g)
   \<and> (\<forall>i. 1 \<le> i \<and> i < length (layers g) \<longrightarrow>
         (\<forall>dep \<in> set (Layer_iter (layers (clear st g) ! i)). used (st dep)))
   \<and> (layers g \<noteq> [] \<longrightarrow> layers (clear st g) ! 0 = layers g ! 0)
   \<and> (\<forall>i. i < length (layers g) \<longrightarrow>
         set (mapping (layers (clear st g) ! i)) \<subseteq> set (mapping (layers g ! i)))
   \<and> clear st (clear st g) = clear st g
   \<and> roots (clear st g) = roots g \<and> conflict (clear st g) = conflict g"
proof (intro conjI allI impI)
  show len: "length (layers (clear st g)) = length (layers g)"
    by (cases "layers g") (simp_all add: clear_def)
  show "\<forall>dep \<in> set (Layer_iter (layers (clear st g) ! i)). used (st dep)"
    if "1 \<le> i \<and> i < length (layers g)" for i
    using that by (auto simp: clear_layers_nth Layer_clear_def Layer_iter_def dict_values_def)
  show "layers (clear st g) ! 0 = layers g ! 0" if "layers g \<noteq> []"
    using that by (simp add: clear_layers_nth)
  show "set (mapping (layers (clear st g) ! i)) \<subseteq> set (mapping (layers g ! i))"
    if "i < length (layers g)" for i
    using that by (auto simp: clear_layers_nth Layer_clear_def)
  have idem: "Layer_clear st (Layer_clear st l) = Layer_clear st l" for l
    by (simp add: Layer_clear_def)
  show "clear st (clear st g) = clear st g"
    by (cases "layers g") (simp_all add: clear_def idem)
  show "roots (clear st g) = roots g" by (simp add: clear_def)
  show "conflict (clear st g) = conflict g" by (simp add: clear_def)
qed

theorem clear_keeps_only_used_witness:
  "layers (clear ex_store ex_graph) = [ex_layer0, ex_layer1, \<lparr>level = 2, mapping = []\<rparr>]
   \<and> layers ex_graph \<noteq> []
   \<and> layers (clear ex_store ex_graph) ! 0 = layers ex_graph ! 0
   \<and> used (ex_store 1) \<and> used (ex_store 2) \<and> \<not> used (ex_store 3)
   \<and> set (mapping (layers (clear ex_store ex_graph) ! 2)) \<subseteq> set (mapping (layers ex_graph ! 2))
   \<and> clear ex_store (clear ex_store ex_graph) = clear ex_store ex_graph"
proof -
  note t = clear_keeps_only_used[of ex_store ex_graph]
  have ne: "layers ex_graph \<noteq> []" and len: "length (layers ex_graph) = 3"
    by (simp_all add: ex_graph_def)
  have ls: "layers (clear ex_store ex_graph) = [ex_layer0, ex_layer1, \<lparr>level = 2, mapping = []\<rparr>]"
    by (simp add: clear_def ex_graph_def Layer_clear_def ex_layer1_def ex_layer2_def)
  from t ne have z: "layers (clear ex_store ex_graph) ! 0 = layers ex_graph ! 0" by blast
  from t have "\<forall>i. 1 \<le> i \<and> i < length (layers ex_graph) \<longrightarrow>
         (\<forall>dep \<in> set (Layer_iter (layers (clear ex_store ex_graph) ! i)). used (ex_store dep))"
    by blast
  then have "1 \<le> (1::nat) \<and> 1 < length (layers ex_graph) \<longrightarrow>
         (\<forall>dep \<in> set (Layer_iter (layers (clear ex_store ex_graph) ! 1)). used (ex_store dep))"
    by (rule spec)
  with len have u: "\<forall>dep \<in> set (Layer_iter (layers (clear ex_store ex_graph) ! 1)). used (ex_store dep)"
    by simp
  then have u12: "used (ex_store 1) \<and> used (ex_store 2)"
    by (simp add: ls Layer_iter_def dict_values_def ex_layer1_def)
  from t have "\<forall>i. i < length (layers ex_graph) \<longrightarrow>
         set (mapping (layers (clear ex_store ex_graph) ! i)) \<subseteq> set (mapping (layers ex_graph ! i))"
    by blast
  then have "2 < length (layers ex_graph) \<longrightarrow>
         set (mapping (layers (clear ex_store ex_graph) ! 2)) \<subseteq> set (mapping (layers ex_graph ! 2))"
    by (rule spec)
  with len have s: "set (mapping (layers (clear ex_store ex_graph) ! 2)) \<subseteq> set (mapping (layers ex_graph ! 2))"
    by simp
  from t have i: "clear ex_store (clear ex_store ex_graph) = clear ex_store ex_graph" by blast
  show ?thesis using ls ne z u12 s i by simp
qed

section \<open>Descendants\<close>


lemma ex_get_layer:
  "get_layer ex_store ex_graph 1 = Some ex_layer2"
  "get_layer ex_store ex_graph 2 = Some ex_layer1"
  by (simp_all add: get_layer_def ex_graph_def Layer_contains_def dict_contains_def
        ex_layer0_def ex_layer1_def ex_layer2_def)

lemma ex_cycle_never_returns:
  "get_children depth ex_store ex_graph 1 = Inl RecursionError
   \<and> get_children depth ex_store ex_graph 2 = Inl RecursionError"
proof (induction depth)
  case 0
  show ?case by simp
next
  case (Suc depth)
  then show ?case
    using ex_get_layer by (simp add: Let_def)
qed

text \<open>
  C1. In the example graph \<open>a\<close> and \<open>b\<close> are locked, graphed and list each other.
  Whatever recursion depth the interpreter allows, \<open>get_children\<close> of \<open>a\<close> uses it up
  and ends in \<open>RecursionError\<close>: it returns no result. The test for a name already
  recorded only chooses between a warning and an insertion; the call on the child
  follows in both cases, and each call starts from an empty result.
\<close>

theorem get_children_cycle_recursion_error:
  "get_children depth ex_store ex_graph 1 = Inl RecursionError"
  using ex_cycle_never_returns by blast

section \<open>Adding with an explicit level\<close>

lemma add_Some_nonroot: "\<not> is_root (st dep) \<Longrightarrow> add st g dep (Some k) = add_level st g dep k"
  by (simp add: add_def)

lemma py_index_in_range: "0 \<le> k \<Longrightarrow> k < int (length xs) \<Longrightarrow> py_index xs k = Inr (xs ! nat k)"
  by (simp add: py_index_def)

lemma py_index_beyond: "int (length xs) \<le> k \<Longrightarrow> py_index xs k = Inl IndexError"
  by (simp add: py_index_def)

lemma Layer_init_single:
  "Layer_init st k [dep] = Inr \<lparr>level = k, mapping = [(name (st dep), dep)]\<rparr>"
  by (simp add: Layer_init_def Layer_add_def dict_contains_def dict_set_def)

lemma add_level_existing_dup:
  "0 \<le> k \<Longrightarrow> k < int (length (layers g)) \<Longrightarrow> Layer_contains st (layers g ! nat k) dep \<Longrightarrow>
   add_level st g dep k = Inl DuplicateNameError"
  by (simp add: add_level_def py_index_in_range Layer_add_def Layer_contains_def DuplicateNameError_def)

lemma add_level_existing_ok:
  "0 \<le> k \<Longrightarrow> k < int (length (layers g)) \<Longrightarrow> \<not> Layer_contains st (layers g ! nat k) dep \<Longrightarrow>
   add_level st g dep k =
     Inr (g\<lparr>layers := (layers g)[nat k :=
            (layers g ! nat k)\<lparr>mapping := mapping (layers g ! nat k) @ [(name (st dep), dep)]\<rparr>]\<rparr>)"
  by (simp add: add_level_def py_index_in_range Layer_add_def Layer_contains_def
        dict_set_absent py_pos_def)

lemma add_level_beyond:
  "int (length (layers g)) \<le> k \<Longrightarrow>
   add_level st g dep k = Inr (g\<lparr>layers := layers g @ [\<lparr>level = k, mapping = [(name (st dep), dep)]\<rparr>]\<rparr>)"
  by (simp add: add_level_def Layer_init_single)

lemma Layer_get_appended:
  "\<not> dict_contains m n \<Longrightarrow> Layer_get (l\<lparr>mapping := m @ [(n, dep)]\<rparr>) n = Some dep"
  by (simp add: Layer_get_def dict_get_def dict_contains_map_of map_add_def)

lemma add_level_placed:
  assumes "0 \<le> k" and "k \<le> int (length (layers g))" and "add_level st g dep k = Inr g'"
  shows "\<exists>l. get_layer_level g' k = Inr l \<and> Layer_get l (name (st dep)) = Some dep"
proof (cases "k < int (length (layers g))")
  case True
  show ?thesis
  proof (cases "Layer_contains st (layers g ! nat k) dep")
    case True
    with assms \<open>k < int (length (layers g))\<close> show ?thesis
      by (simp add: add_level_existing_dup)
  next
    case False
    with assms(1) True have "add_level st g dep k =
      Inr (g\<lparr>layers := (layers g)[nat k :=
            (layers g ! nat k)\<lparr>mapping := mapping (layers g ! nat k) @ [(name (st dep), dep)]\<rparr>]\<rparr>)"
      by (rule add_level_existing_ok)
    with assms(3) have g': "g' = g\<lparr>layers := (layers g)[nat k :=
            (layers g ! nat k)\<lparr>mapping := mapping (layers g ! nat k) @ [(name (st dep), dep)]\<rparr>]\<rparr>"
      by simp
    from False have "\<not> dict_contains (mapping (layers g ! nat k)) (name (st dep))"
      by (simp add: Layer_contains_def)
    then show ?thesis
      using assms(1) True
      by (simp add: g' get_layer_level_def py_index_in_range Layer_get_appended)
  qed
next
  case False
  with assms(2) have k: "k = int (length (layers g))" by simp
  with assms(3) have g': "g' = g\<lparr>layers := layers g @ [\<lparr>level = k, mapping = [(name (st dep), dep)]\<rparr>]\<rparr>"
    by (simp add: add_level_beyond)
  show ?thesis
    by (simp add: g' k get_layer_level_def py_index_def Layer_get_def dict_get_def)
qed

lemma add_level_out_of_reach:
  assumes "int (length (layers g)) < k" and "add_level st g dep k = Inr g'"
  shows "get_layer_level g' k = Inl IndexError"
proof -
  from assms have "g' = g\<lparr>layers := layers g @ [\<lparr>level = k, mapping = [(name (st dep), dep)]\<rparr>]\<rparr>"
    by (simp add: add_level_beyond)
  with assms(1) show ?thesis
    by (simp add: get_layer_level_def py_index_beyond)
qed

text \<open>
  C7, as the code has it. For a dependency that is not a root and an explicit level \<open>k\<close>
  from 0 up to the number of layers, \<open>add\<close> puts the dependency into the layer at depth
  \<open>k\<close>, appending a new layer when \<open>k\<close> is the number of layers, and afterwards the layer
  at depth \<open>k\<close> holds it; the one failure is the duplicate-name error of an existing
  layer \<open>k\<close> that already holds the name. For \<open>k\<close> greater than the number of layers,
  \<open>add\<close> appends one single layer labelled \<open>k\<close> at the next free index, and no layer can
  be read at depth \<open>k\<close> afterwards.
\<close>

theorem add_at_level_placement:
  assumes "\<not> is_root (st dep)" and "0 \<le> k"
  shows "(k < int (length (layers g)) \<and> Layer_contains st (layers g ! nat k) dep \<longrightarrow>
            add st g dep (Some k) = Inl DuplicateNameError)
       \<and> (k < int (length (layers g)) \<and> \<not> Layer_contains st (layers g ! nat k) dep \<longrightarrow>
            add st g dep (Some k) =
              Inr (g\<lparr>layers := (layers g)[nat k :=
                (layers g ! nat k)\<lparr>mapping := mapping (layers g ! nat k) @ [(name (st dep), dep)]\<rparr>]\<rparr>))
       \<and> (int (length (layers g)) \<le> k \<longrightarrow>
            add st g dep (Some k) =
              Inr (g\<lparr>layers := layers g @ [\<lparr>level = k, mapping = [(name (st dep), dep)]\<rparr>]\<rparr>))
       \<and> (\<forall>g'. k \<le> int (length (layers g)) \<and> add st g dep (Some k) = Inr g' \<longrightarrow>
            (\<exists>l. get_layer_level g' k = Inr l \<and> Layer_get l (name (st dep)) = Some dep))
       \<and> (\<forall>g'. int (length (layers g)) < k \<and> add st g dep (Some k) = Inr g' \<longrightarrow>
            get_layer_level g' k = Inl IndexError)"
proof -
  have eq: "add st g dep (Some k) = add_level st g dep k"
    using assms(1) by (rule add_Some_nonroot)
  show ?thesis
    unfolding eq using assms(2)
    by (intro conjI allI impI)
       (auto simp: add_level_existing_dup add_level_existing_ok add_level_beyond
             intro: add_level_placed add_level_out_of_reach)
qed

lemma ex_graph_layers [simp]:
  "layers ex_graph = [ex_layer0, ex_layer1, ex_layer2]"
  by (simp add: ex_graph_def)

theorem add_at_level_placement_witness:
  "\<not> is_root (ex_store 4) \<and> (0::int) \<le> 3 \<and> 3 \<le> int (length (layers ex_graph))
   \<and> add ex_store ex_graph 4 (Some 3) =
        Inr (ex_graph\<lparr>layers := [ex_layer0, ex_layer1, ex_layer2, \<lparr>level = 3, mapping = [(''c'', 4)]\<rparr>]\<rparr>)
   \<and> get_layer_level (ex_graph\<lparr>layers := [ex_layer0, ex_layer1, ex_layer2, \<lparr>level = 3, mapping = [(''c'', 4)]\<rparr>]\<rparr>) 3
        = Inr \<lparr>level = 3, mapping = [(''c'', 4)]\<rparr>
   \<and> Layer_contains ex_store (layers ex_graph ! 2) 5
   \<and> add ex_store ex_graph 5 (Some 2) = Inl DuplicateNameError
   \<and> \<not> Layer_contains ex_store (layers ex_graph ! 1) 4
   \<and> add ex_store ex_graph 4 (Some 1) =
        Inr (ex_graph\<lparr>layers := [ex_layer0, \<lparr>level = 1, mapping = [(''a'', 1), (''b'', 2), (''c'', 4)]\<rparr>, ex_layer2]\<rparr>)"
proof -
  have r4: "\<not> is_root (ex_store 4)" and r5: "\<not> is_root (ex_store 5)" by simp_all
  have p3: "(0::int) \<le> 3" and p2: "(0::int) \<le> 2" and p1: "(0::int) \<le> 1" by simp_all
  note t3 = add_at_level_placement[where st = ex_store and dep = 4 and k = 3 and g = ex_graph, OF r4 p3]
  note t2 = add_at_level_placement[where st = ex_store and dep = 5 and k = 2 and g = ex_graph, OF r5 p2]
  note t1 = add_at_level_placement[where st = ex_store and dep = 4 and k = 1 and g = ex_graph, OF r4 p1]
  have c5: "Layer_contains ex_store (layers ex_graph ! 2) 5"
    by (simp add: Layer_contains_def dict_contains_def ex_layer2_def)
  have c4: "\<not> Layer_contains ex_store (layers ex_graph ! 1) 4"
    by (simp add: Layer_contains_def dict_contains_def ex_layer1_def)
  from t3 have a3: "add ex_store ex_graph 4 (Some 3) =
        Inr (ex_graph\<lparr>layers := [ex_layer0, ex_layer1, ex_layer2, \<lparr>level = 3, mapping = [(''c'', 4)]\<rparr>]\<rparr>)"
    by simp
  have g3: "get_layer_level (ex_graph\<lparr>layers := [ex_layer0, ex_layer1, ex_layer2, \<lparr>level = 3, mapping = [(''c'', 4)]\<rparr>]\<rparr>) 3
        = Inr \<lparr>level = 3, mapping = [(''c'', 4)]\<rparr>"
    by (simp add: get_layer_level_def py_index_def)
  from t2 c5 have a2: "add ex_store ex_graph 5 (Some 2) = Inl DuplicateNameError"
    by simp
  from t1 c4 have a1: "add ex_store ex_graph 4 (Some 1) =
        Inr (ex_graph\<lparr>layers := [ex_layer0, \<lparr>level = 1, mapping = [(''a'', 1), (''b'', 2), (''c'', 4)]\<rparr>, ex_layer2]\<rparr>)"
    by (simp add: ex_layer1_def)
  show ?thesis
    using r4 a3 g3 c5 a2 c4 a1 by simp
qed

theorem add_beyond_layers_counterexample:
  "add ex_store ex_graph 4 (Some 5) =
     Inr (ex_graph\<lparr>layers := [ex_layer0, ex_layer1, ex_layer2, \<lparr>level = 5, mapping = [(''c'', 4)]\<rparr>]\<rparr>)
   \<and> get_layer_level (ex_graph\<lparr>layers := [ex_layer0, ex_layer1, ex_layer2, \<lparr>level = 5, mapping = [(''c'', 4)]\<rparr>]\<rparr>) 5
        = Inl IndexError"
  by (simp add: add_def add_level_def Layer_init_single get_layer_level_def py_index_def)

section \<open>Adding without a level\<close>

lemma holds_parent_of_list_ex:
  "list_ex (\<lambda>parent. name (st parent) \<in> set (sources (st dep))) (Layer_iter layer)
     \<longleftrightarrow> holds_parent_of st dep layer"
  by (simp add: holds_parent_of_def list_ex_iff)

lemma find_parent_layer_none:
  "(\<forall>layer \<in> set ls. \<not> holds_parent_of st dep layer) \<Longrightarrow>
   find_parent_layer st (sources (st dep)) ls = None"
  by (induction ls) (simp_all add: holds_parent_of_list_ex)

lemma find_parent_layer_first:
  "d < length ls \<Longrightarrow> holds_parent_of st dep (ls ! d) \<Longrightarrow>
   (\<forall>i<d. \<not> holds_parent_of st dep (ls ! i)) \<Longrightarrow>
   find_parent_layer st (sources (st dep)) ls = Some (ls ! d)"
proof (induction ls arbitrary: d)
  case Nil
  then show ?case by simp
next
  case (Cons l ls)
  show ?case
  proof (cases d)
    case 0
    with Cons.prems(2) show ?thesis by (simp add: holds_parent_of_list_ex)
  next
    case (Suc d')
    with Cons.prems(3) have "\<not> holds_parent_of st dep l" by auto
    moreover have "find_parent_layer st (sources (st dep)) ls = Some (ls ! d')"
    proof (rule Cons.IH)
      show "d' < length ls" using Cons.prems(1) Suc by simp
      show "holds_parent_of st dep (ls ! d')" using Cons.prems(2) Suc by simp
      show "\<forall>i<d'. \<not> holds_parent_of st dep (ls ! i)"
        using Cons.prems(3) Suc by auto
    qed
    ultimately show ?thesis using Suc by (simp add: holds_parent_of_list_ex)
  qed
qed

text \<open>
  C6, as the code has it. For a dependency that is not a root, \<open>add\<close> without a level
  fails with the orphan error when no layer holds an entry named among its contributing
  parents. Otherwise it takes the first such layer, counting from layer 0, and does what
  \<open>add\<close> with the explicit level \<open>L + 1\<close> does, where \<open>L\<close> is the level label of that
  layer. For \<open>L\<close> not negative: when \<open>L + 1\<close> is less than the number of layers, the
  dependency is inserted into the layer at index \<open>L + 1\<close>, or the add fails with the
  duplicate-name error when that layer already holds the name; when \<open>L + 1\<close> is at least
  the number of layers, one new layer labelled \<open>L + 1\<close> and holding the dependency is
  appended at the end. In particular, when the label of the layer found equals its index
  \<open>d\<close>, the dependency is put into the layer at depth \<open>d + 1\<close>, unless that layer
  already holds the name and the add fails with the duplicate-name error.
\<close>

theorem add_without_level_target:
  assumes "\<not> is_root (st dep)"
  shows "((\<forall>layer \<in> set (layers g). \<not> holds_parent_of st dep layer) \<longrightarrow>
            add st g dep None = Inl OrphanDependencyError)
       \<and> (\<forall>d. d < length (layers g) \<and> holds_parent_of st dep (layers g ! d)
              \<and> (\<forall>i<d. \<not> holds_parent_of st dep (layers g ! i)) \<longrightarrow>
            add st g dep None = add st g dep (Some (level (layers g ! d) + 1))
            \<and> (0 \<le> level (layers g ! d) \<and> level (layers g ! d) + 1 < int (length (layers g))
                 \<and> Layer_contains st (layers g ! nat (level (layers g ! d) + 1)) dep \<longrightarrow>
               add st g dep None = Inl DuplicateNameError)
            \<and> (0 \<le> level (layers g ! d) \<and> level (layers g ! d) + 1 < int (length (layers g))
                 \<and> \<not> Layer_contains st (layers g ! nat (level (layers g ! d) + 1)) dep \<longrightarrow>
               add st g dep None =
                 Inr (g\<lparr>layers := (layers g)[nat (level (layers g ! d) + 1) :=
                   (layers g ! nat (level (layers g ! d) + 1))
                     \<lparr>mapping := mapping (layers g ! nat (level (layers g ! d) + 1))
                                  @ [(name (st dep), dep)]\<rparr>]\<rparr>))
            \<and> (int (length (layers g)) \<le> level (layers g ! d) + 1 \<longrightarrow>
               add st g dep None =
                 Inr (g\<lparr>layers := layers g
                        @ [\<lparr>level = level (layers g ! d) + 1, mapping = [(name (st dep), dep)]\<rparr>]\<rparr>))
            \<and> (level (layers g ! d) = int d \<and> Suc d < length (layers g)
                 \<and> Layer_contains st (layers g ! Suc d) dep \<longrightarrow>
               add st g dep None = Inl DuplicateNameError)
            \<and> (level (layers g ! d) = int d
                 \<and> (Suc d < length (layers g) \<longrightarrow> \<not> Layer_contains st (layers g ! Suc d) dep) \<longrightarrow>
               (\<exists>g' l. add st g dep None = Inr g' \<and> get_layer_level g' (int d + 1) = Inr l
                        \<and> Layer_get l (name (st dep)) = Some dep)))"
proof (intro conjI allI impI)
  assume "\<forall>layer \<in> set (layers g). \<not> holds_parent_of st dep layer"
  then have "find_parent_layer st (sources (st dep)) (layers g) = None"
    by (rule find_parent_layer_none)
  with assms show "add st g dep None = Inl OrphanDependencyError"
    by (simp add: add_def OrphanDependencyError_def)
next
  fix d
  assume first: "d < length (layers g) \<and> holds_parent_of st dep (layers g ! d)
              \<and> (\<forall>i<d. \<not> holds_parent_of st dep (layers g ! i))"
  define L where "L = level (layers g ! d)"
  from first have f: "find_parent_layer st (sources (st dep)) (layers g) = Some (layers g ! d)"
    by (intro find_parent_layer_first) simp_all
  with assms show eq: "add st g dep None = add st g dep (Some (level (layers g ! d) + 1))"
    by (simp add: add_def)
  have eq': "add st g dep None = add_level st g dep (L + 1)"
    using eq assms by (simp add: add_Some_nonroot L_def)
  {
    assume h: "0 \<le> level (layers g ! d) \<and> level (layers g ! d) + 1 < int (length (layers g))
                 \<and> Layer_contains st (layers g ! nat (level (layers g ! d) + 1)) dep"
    then have "add_level st g dep (L + 1) = Inl DuplicateNameError"
      unfolding L_def[symmetric] by (intro add_level_existing_dup) simp_all
    then show "add st g dep None = Inl DuplicateNameError"
      by (simp add: eq')
  }
  {
    assume h: "0 \<le> level (layers g ! d) \<and> level (layers g ! d) + 1 < int (length (layers g))
                 \<and> \<not> Layer_contains st (layers g ! nat (level (layers g ! d) + 1)) dep"
    then have "add_level st g dep (L + 1) =
        Inr (g\<lparr>layers := (layers g)[nat (L + 1) :=
            (layers g ! nat (L + 1))\<lparr>mapping := mapping (layers g ! nat (L + 1)) @ [(name (st dep), dep)]\<rparr>]\<rparr>)"
      unfolding L_def[symmetric] by (intro add_level_existing_ok) simp_all
    then show "add st g dep None =
                 Inr (g\<lparr>layers := (layers g)[nat (level (layers g ! d) + 1) :=
                   (layers g ! nat (level (layers g ! d) + 1))
                     \<lparr>mapping := mapping (layers g ! nat (level (layers g ! d) + 1))
                                  @ [(name (st dep), dep)]\<rparr>]\<rparr>)"
      by (simp add: eq' L_def)
  }
  {
    assume h: "int (length (layers g)) \<le> level (layers g ! d) + 1"
    then have "add_level st g dep (L + 1) =
        Inr (g\<lparr>layers := layers g @ [\<lparr>level = L + 1, mapping = [(name (st dep), dep)]\<rparr>]\<rparr>)"
      unfolding L_def[symmetric] by (rule add_level_beyond)
    then show "add st g dep None =
                 Inr (g\<lparr>layers := layers g
                        @ [\<lparr>level = level (layers g ! d) + 1, mapping = [(name (st dep), dep)]\<rparr>]\<rparr>)"
      by (simp add: eq' L_def)
  }
  {
    assume h: "level (layers g ! d) = int d \<and> Suc d < length (layers g)
                 \<and> Layer_contains st (layers g ! Suc d) dep"
    have "add_level st g dep (int d + 1) = Inl DuplicateNameError"
      using h by (intro add_level_existing_dup) (simp_all add: nat_add_distrib)
    with h show "add st g dep None = Inl DuplicateNameError"
      by (simp add: eq' L_def)
  }
  {
    assume h: "level (layers g ! d) = int d
                 \<and> (Suc d < length (layers g) \<longrightarrow> \<not> Layer_contains st (layers g ! Suc d) dep)"
    have "\<exists>g'. add_level st g dep (int d + 1) = Inr g'"
    proof (cases "Suc d < length (layers g)")
      case True
      with h have "\<not> Layer_contains st (layers g ! nat (int d + 1)) dep"
        by (simp add: nat_add_distrib)
      then show ?thesis
        using True add_level_existing_ok[of "int d + 1" g st dep] by simp
    next
      case False
      then show ?thesis
        using add_level_beyond[of g "int d + 1" st dep] by simp
    qed
    then obtain g' where g': "add_level st g dep (int d + 1) = Inr g'" by blast
    have "\<exists>l. get_layer_level g' (int d + 1) = Inr l \<and> Layer_get l (name (st dep)) = Some dep"
      using first by (intro add_level_placed[OF _ _ g']) simp_all
    with g' h show "\<exists>g' l. add st g dep None = Inr g' \<and> get_layer_level g' (int d + 1) = Inr l
                        \<and> Layer_get l (name (st dep)) = Some dep"
      by (simp add: eq' L_def)
  }
qed

theorem add_without_level_target_witness:
  "\<not> is_root (ex_store 4)
   \<and> add ex_store ex_graph 4 None = Inl OrphanDependencyError
   \<and> holds_parent_of ex_store 3 ex_layer1 \<and> \<not> holds_parent_of ex_store 3 ex_layer0
   \<and> add ex_store (ex_graph\<lparr>layers := [ex_layer0, ex_layer1]\<rparr>) 3 None
        = add ex_store (ex_graph\<lparr>layers := [ex_layer0, ex_layer1]\<rparr>) 3 (Some 2)
   \<and> add ex_store (ex_graph\<lparr>layers := [ex_layer0, ex_layer1]\<rparr>) 3 None = Inr ex_graph
   \<and> Layer_contains ex_store (layers ex_graph ! 2) 5
   \<and> add ex_store ex_graph 5 None = Inl DuplicateNameError
   \<and> add ex_store (ex_graph\<lparr>layers := [ex_layer0, \<lparr>level = 1, mapping = [(''b'', 2)]\<rparr>]\<rparr>) 1 None
        = Inr (ex_graph\<lparr>layers := [ex_layer0, \<lparr>level = 1, mapping = [(''b'', 2), (''a'', 1)]\<rparr>]\<rparr>)
   \<and> add ex_store (ex_graph\<lparr>layers := [ex_layer0, \<lparr>level = 5, mapping = [(''b'', 2)]\<rparr>,
                                            \<lparr>level = 6, mapping = [(''a'', 3)]\<rparr>]\<rparr>) 5 None
        = Inr (ex_graph\<lparr>layers := [ex_layer0, \<lparr>level = 5, mapping = [(''b'', 2)]\<rparr>,
                                    \<lparr>level = 6, mapping = [(''a'', 3)]\<rparr>,
                                    \<lparr>level = 6, mapping = [(''a'', 5)]\<rparr>]\<rparr>)"
proof -
  have r: "\<not> is_root (ex_store 4)" "\<not> is_root (ex_store 3)" "\<not> is_root (ex_store 5)"
    "\<not> is_root (ex_store 1)"
    by simp_all
  have h0: "\<not> holds_parent_of ex_store 3 ex_layer0" "\<not> holds_parent_of ex_store 5 ex_layer0"
    by (simp_all add: holds_parent_of_def Layer_iter_def dict_values_def ex_layer0_def)
  have h1: "holds_parent_of ex_store 3 ex_layer1" "holds_parent_of ex_store 5 ex_layer1"
    by (simp_all add: holds_parent_of_def Layer_iter_def dict_values_def ex_layer1_def)
  have none4: "\<forall>layer \<in> set (layers ex_graph). \<not> holds_parent_of ex_store 4 layer"
    by (simp add: holds_parent_of_def Layer_iter_def dict_values_def
          ex_layer0_def ex_layer1_def ex_layer2_def)
  note t4 = add_without_level_target[where st = ex_store and dep = 4 and g = ex_graph, OF r(1)]
  from t4 none4 have a4: "add ex_store ex_graph 4 None = Inl OrphanDependencyError"
    by blast

  let ?g2 = "ex_graph\<lparr>layers := [ex_layer0, ex_layer1]\<rparr>"
  note t3 = add_without_level_target[where st = ex_store and dep = 3 and g = ?g2, OF r(2)]
  have first3: "1 < length (layers ?g2) \<and> holds_parent_of ex_store 3 (layers ?g2 ! 1)
      \<and> (\<forall>i<1. \<not> holds_parent_of ex_store 3 (layers ?g2 ! i))"
    using h0 h1 by simp
  from t3 first3 have "add ex_store ?g2 3 None = add ex_store ?g2 3 (Some (level (layers ?g2 ! 1) + 1))"
    by blast
  then have a3: "add ex_store ?g2 3 None = add ex_store ?g2 3 (Some 2)"
    by (simp add: ex_layer1_def)
  have beyond3: "int (length (layers ?g2)) \<le> level (layers ?g2 ! 1) + 1"
    by (simp add: ex_layer1_def)
  from t3 first3 beyond3 have "add ex_store ?g2 3 None =
      Inr (?g2\<lparr>layers := layers ?g2
             @ [\<lparr>level = level (layers ?g2 ! 1) + 1, mapping = [(name (ex_store 3), 3)]\<rparr>]\<rparr>)"
    by blast
  then have b3: "add ex_store ?g2 3 None = Inr ex_graph"
    by (simp add: ex_graph_def ex_layer1_def ex_layer2_def)

  note t5 = add_without_level_target[where st = ex_store and dep = 5 and g = ex_graph, OF r(3)]
  have c5: "Layer_contains ex_store (layers ex_graph ! 2) 5"
    by (simp add: Layer_contains_def dict_contains_def ex_layer2_def)
  have first5: "1 < length (layers ex_graph) \<and> holds_parent_of ex_store 5 (layers ex_graph ! 1)
      \<and> (\<forall>i<1. \<not> holds_parent_of ex_store 5 (layers ex_graph ! i))"
    using h0 h1 by simp
  have lev5: "0 \<le> level (layers ex_graph ! 1)
      \<and> level (layers ex_graph ! 1) + 1 < int (length (layers ex_graph))
      \<and> Layer_contains ex_store (layers ex_graph ! nat (level (layers ex_graph ! 1) + 1)) 5"
    using c5 by (simp add: ex_layer1_def)
  from t5 first5 lev5 have a5: "add ex_store ex_graph 5 None = Inl DuplicateNameError"
    by blast

  let ?l1 = "\<lparr>level = 1, mapping = [(''b'', 2)]\<rparr>"
  let ?g3 = "ex_graph\<lparr>layers := [ex_layer0, ?l1]\<rparr>"
  note t1 = add_without_level_target[where st = ex_store and dep = 1 and g = ?g3, OF r(4)]
  have first1: "0 < length (layers ?g3) \<and> holds_parent_of ex_store 1 (layers ?g3 ! 0)
      \<and> (\<forall>i<0. \<not> holds_parent_of ex_store 1 (layers ?g3 ! i))"
    by (simp add: holds_parent_of_def Layer_iter_def dict_values_def ex_layer0_def)
  have lev1: "0 \<le> level (layers ?g3 ! 0)
      \<and> level (layers ?g3 ! 0) + 1 < int (length (layers ?g3))
      \<and> \<not> Layer_contains ex_store (layers ?g3 ! nat (level (layers ?g3 ! 0) + 1)) 1"
    by (simp add: Layer_contains_def dict_contains_def ex_layer0_def)
  from t1 first1 lev1 have "add ex_store ?g3 1 None =
      Inr (?g3\<lparr>layers := (layers ?g3)[nat (level (layers ?g3 ! 0) + 1) :=
             (layers ?g3 ! nat (level (layers ?g3 ! 0) + 1))
               \<lparr>mapping := mapping (layers ?g3 ! nat (level (layers ?g3 ! 0) + 1))
                            @ [(name (ex_store 1), 1)]\<rparr>]\<rparr>)"
    by blast
  then have a1: "add ex_store ?g3 1 None
        = Inr (ex_graph\<lparr>layers := [ex_layer0, \<lparr>level = 1, mapping = [(''b'', 2), (''a'', 1)]\<rparr>]\<rparr>)"
    by (simp add: ex_layer0_def)

  let ?g6 = "ex_graph\<lparr>layers := [ex_layer0, \<lparr>level = 5, mapping = [(''b'', 2)]\<rparr>,
                                  \<lparr>level = 6, mapping = [(''a'', 3)]\<rparr>]\<rparr>"
  note t6 = add_without_level_target[where st = ex_store and dep = 5 and g = ?g6, OF r(3)]
  have first6: "1 < length (layers ?g6) \<and> holds_parent_of ex_store 5 (layers ?g6 ! 1)
      \<and> (\<forall>i<1. \<not> holds_parent_of ex_store 5 (layers ?g6 ! i))"
    using h0 by (simp add: holds_parent_of_def Layer_iter_def dict_values_def)
  have beyond6: "int (length (layers ?g6)) \<le> level (layers ?g6 ! 1) + 1"
    by simp
  from t6 first6 beyond6 have "add ex_store ?g6 5 None =
      Inr (?g6\<lparr>layers := layers ?g6
             @ [\<lparr>level = level (layers ?g6 ! 1) + 1, mapping = [(name (ex_store 5), 5)]\<rparr>]\<rparr>)"
    by blast
  then have a6: "add ex_store ?g6 5 None
        = Inr (ex_graph\<lparr>layers := [ex_layer0, \<lparr>level = 5, mapping = [(''b'', 2)]\<rparr>,
                                    \<lparr>level = 6, mapping = [(''a'', 3)]\<rparr>,
                                    \<lparr>level = 6, mapping = [(''a'', 5)]\<rparr>]\<rparr>)"
    by simp
  show ?thesis
    using r(1) a4 h1(1) h0(1) a3 b3 c5 a5 a1 a6 by simp
qed

theorem add_without_level_counterexample:
  "\<not> is_root (ex_store 5) \<and> sources (ex_store 5) = [''b'']
   \<and> Layer_get ex_layer1 ''b'' = Some 2 \<and> Layer_get ex_layer0 ''b'' = None
   \<and> add ex_store ex_graph 5 None = Inl DuplicateNameError"
  by (simp add: add_def add_level_def py_index_def Layer_add_def dict_contains_def
        Layer_iter_def dict_values_def Layer_get_def dict_get_def DuplicateNameError_def
        ex_layer0_def ex_layer1_def ex_layer2_def)

section \<open>The frontier\<close>

lemma py_slice_to_take: "\<exists>m. py_slice_to xs n = take m xs"
  by (auto simp: py_slice_to_def)

lemma get_leafs_filter:
  "get_leafs st g lvl =
     filter (is_leaf st)
       (concat (map Layer_iter (case lvl of None \<Rightarrow> layers g | Some k \<Rightarrow> py_slice_to (layers g) (k + 1))))"
proof -
  have "(\<lambda>dep. \<not> applied (st dep) \<and> used (st dep)) = is_leaf st"
    by (auto simp: is_leaf_def)
  then show ?thesis
    by (simp add: get_leafs_def filter_concat comp_def)
qed

lemma distinct_concat_take:
  assumes "distinct (concat (map f xs))"
  shows "distinct (concat (map f (take m xs)))"
proof -
  have "concat (map f xs) = concat (map f (take m xs)) @ concat (map f (drop m xs))"
    by (metis append_take_drop_id concat_append map_append)
  with assms show ?thesis by simp
qed

lemma set_concat_take:
  "set (concat (map f (take m xs))) = {x. \<exists>i. i < m \<and> i < length xs \<and> x \<in> set (f (xs ! i))}"
proof -
  have "set (take m xs) = {xs ! i | i. i < m \<and> i < length xs}"
    by (fastforce simp: in_set_conv_nth)
  then show ?thesis by auto
qed

text \<open>
  C5, as the code has it. \<open>get_leafs\<close> returns the entries that are used and not applied,
  of all layers when no level is given and of the layers 0 to \<open>k\<close> for a level \<open>k\<close> that
  is not negative, in the order of the layers and, within a layer, of insertion: one
  occurrence for every entry. The result has no duplicates when no dependency is stored
  under two entries of the graph.
\<close>

theorem get_leafs_frontier:
  "get_leafs st g None = filter (is_leaf st) (concat (map Layer_iter (layers g)))
   \<and> (0 \<le> k \<longrightarrow> get_leafs st g (Some k) =
         filter (is_leaf st) (concat (map Layer_iter (take (nat k + 1) (layers g)))))
   \<and> set (get_leafs st g None) =
       {dep. is_leaf st dep \<and> (\<exists>i. i < length (layers g) \<and> dep \<in> set (Layer_iter (layers g ! i)))}
   \<and> (0 \<le> k \<longrightarrow> set (get_leafs st g (Some k)) =
         {dep. is_leaf st dep
               \<and> (\<exists>i. i \<le> nat k \<and> i < length (layers g) \<and> dep \<in> set (Layer_iter (layers g ! i)))})
   \<and> (distinct (concat (map Layer_iter (layers g))) \<longrightarrow> distinct (get_leafs st g lvl))"
proof (intro conjI impI)
  show n: "get_leafs st g None = filter (is_leaf st) (concat (map Layer_iter (layers g)))"
    by (simp add: get_leafs_filter)
  show k: "get_leafs st g (Some k) =
         filter (is_leaf st) (concat (map Layer_iter (take (nat k + 1) (layers g))))" if "0 \<le> k"
    using that by (simp add: get_leafs_filter py_slice_to_def nat_add_distrib)
  have "set (concat (map Layer_iter (layers g)))
      = {x. \<exists>i. i < length (layers g) \<and> x \<in> set (Layer_iter (layers g ! i))}"
    using set_concat_take[of Layer_iter "length (layers g)" "layers g"] by simp
  then show "set (get_leafs st g None) =
       {dep. is_leaf st dep \<and> (\<exists>i. i < length (layers g) \<and> dep \<in> set (Layer_iter (layers g ! i)))}"
    unfolding n by auto
  show "set (get_leafs st g (Some k)) =
         {dep. is_leaf st dep
               \<and> (\<exists>i. i \<le> nat k \<and> i < length (layers g) \<and> dep \<in> set (Layer_iter (layers g ! i)))}"
    if "0 \<le> k"
    unfolding k[OF that] set_filter set_concat_take by (auto simp: less_Suc_eq_le)
  show "distinct (get_leafs st g lvl)" if d: "distinct (concat (map Layer_iter (layers g)))"
  proof (cases lvl)
    case None
    with d show ?thesis by (simp add: get_leafs_filter)
  next
    case (Some j)
    obtain m where "py_slice_to (layers g) (j + 1) = take m (layers g)"
      using py_slice_to_take by blast
    with Some d show ?thesis
      by (simp add: get_leafs_filter distinct_concat_take)
  qed
qed

theorem get_leafs_frontier_witness:
  "get_leafs ex_store ex_graph None = [0, 1]
   \<and> (0::int) \<le> 0 \<and> get_leafs ex_store ex_graph (Some 0) = [0]
   \<and> set (get_leafs ex_store ex_graph (Some 0)) = {0}
   \<and> distinct (concat (map Layer_iter (layers ex_graph)))
   \<and> distinct (get_leafs ex_store ex_graph (Some 1))"
proof -
  note t = get_leafs_frontier[where st = ex_store and g = ex_graph and k = 0 and lvl = "Some 1"]
  have l: "is_leaf ex_store 0" "is_leaf ex_store 1" "\<not> is_leaf ex_store 2" "\<not> is_leaf ex_store 3"
    by (simp_all add: is_leaf_def)
  from t have "get_leafs ex_store ex_graph None = filter (is_leaf ex_store) (concat (map Layer_iter (layers ex_graph)))"
    by blast
  then have a: "get_leafs ex_store ex_graph None = [0, 1]"
    using l by (simp add: Layer_iter_def dict_values_def ex_layer0_def ex_layer1_def ex_layer2_def)
  from t have "get_leafs ex_store ex_graph (Some 0) =
         filter (is_leaf ex_store) (concat (map Layer_iter (take (nat 0 + 1) (layers ex_graph))))"
    by simp
  then have b: "get_leafs ex_store ex_graph (Some 0) = [0]"
    using l by (simp add: Layer_iter_def dict_values_def ex_layer0_def)
  have d: "distinct (concat (map Layer_iter (layers ex_graph)))"
    by (simp add: Layer_iter_def dict_values_def ex_layer0_def ex_layer1_def ex_layer2_def)
  with t have e: "distinct (get_leafs ex_store ex_graph (Some 1))" by blast
  show ?thesis using a b d e by simp
qed

theorem get_leafs_duplicates_counterexample:
  "add ex_store (ex_graph\<lparr>layers := [ex_layer0]\<rparr>) 4 (Some 1)
     = Inr (ex_graph\<lparr>layers := [ex_layer0, \<lparr>level = 1, mapping = [(''c'', 4)]\<rparr>]\<rparr>)
   \<and> add ex_store (ex_graph\<lparr>layers := [ex_layer0, \<lparr>level = 1, mapping = [(''c'', 4)]\<rparr>]\<rparr>) 4 (Some 2)
     = Inr ex_twice
   \<and> get_leafs ex_store ex_twice None = [0, 4, 4]
   \<and> \<not> distinct (get_leafs ex_store ex_twice None)
   \<and> get_leafs ex_store ex_graph (Some (- 2)) = [0, 1]"
  by (simp add: add_def add_level_def Layer_init_single ex_twice_def ex_graph_def
        get_leafs_def py_slice_to_def Layer_iter_def dict_values_def
        ex_layer0_def ex_layer1_def ex_layer2_def)

declare get_parents.simps [simp del]

section \<open>Ancestors\<close>

lemma dict_set_keys: "fst ` set (dict_set d k v) = insert k (fst ` set d)"
  by (force simp: dict_set_def dict_contains_def split: if_splits)

lemma dict_set_entries: "set (dict_set d k v) \<subseteq> insert (k, v) (set d)"
  by (auto simp: dict_set_def split: if_splits)

lemma dict_update_keys: "fst ` set (dict_update d e) = fst ` set d \<union> fst ` set e"
  unfolding dict_update_def
proof (induction e arbitrary: d)
  case Nil
  show ?case by simp
next
  case (Cons x e)
  obtain k v where x: "x = (k, v)" by (cases x)
  show ?case
    using Cons.IH[of "dict_set d k v"] by (simp add: x dict_set_keys)
qed

lemma dict_update_entries: "set (dict_update d e) \<subseteq> set d \<union> set e"
  unfolding dict_update_def
proof (induction e arbitrary: d)
  case Nil
  show ?case by simp
next
  case (Cons x e)
  obtain k v where x: "x = (k, v)" by (cases x)
  show ?case
    using Cons.IH[of "dict_set d k v"] dict_set_entries[of d k v]
    by (auto simp: x)
qed

lemma foldl_keys_union:
  assumes "\<And>a x. x \<in> set xs \<Longrightarrow> fst ` set (f a x) = fst ` set a \<union> K x"
  shows "fst ` set (foldl f a xs) = fst ` set a \<union> (\<Union>x \<in> set xs. K x)"
  using assms
proof (induction xs arbitrary: a)
  case Nil
  show ?case by simp
next
  case (Cons x xs)
  have "fst ` set (foldl f (f a x) xs) = fst ` set (f a x) \<union> (\<Union>x \<in> set xs. K x)"
    by (rule Cons.IH) (simp add: Cons.prems)
  then show ?case
    by (simp add: Cons.prems Un_assoc)
qed

lemma foldl_invariant:
  assumes "I a" and "\<And>a x. x \<in> set xs \<Longrightarrow> I a \<Longrightarrow> I (f a x)"
  shows "I (foldl f a xs)"
  using assms by (induction xs arbitrary: a) simp_all

lemma is_parent_of_lists_child:
  "is_parent_of st g avoid dep parent \<longleftrightarrow>
     (\<exists>layer \<in> set (layers g). parent \<in> set (Layer_iter layer))
     \<and> lists_child st avoid dep (dependencies (st parent))"
  unfolding is_parent_of_def lists_child_iff by metis

lemma collect_parents_keys:
  "fst ` set (collect_parents st g deps avoid)
     = (\<lambda>p. name (st p)) ` {p. \<exists>dep \<in> set deps. is_parent_of st g avoid dep p}"
proof -
  have "fst ` set (collect_parents st g deps avoid)
      = fst ` set ([] :: ref dict) \<union> (\<Union>dep \<in> set deps. \<Union>layer \<in> set (layers g). \<Union>parent \<in> set (Layer_iter layer).
            (if lists_child st avoid dep (dependencies (st parent)) then {name (st parent)} else {}))"
    unfolding collect_parents_def
    by (intro foldl_keys_union) (simp add: dict_set_keys)
  also have "\<dots> = (\<lambda>p. name (st p)) ` {p. \<exists>dep \<in> set deps. is_parent_of st g avoid dep p}"
    by (auto simp: is_parent_of_lists_child split: if_splits)
  finally show ?thesis .
qed

lemma collect_parents_entries:
  "\<forall>(n, p) \<in> set (collect_parents st g deps avoid).
      n = name (st p) \<and> (\<exists>dep \<in> set deps. is_parent_of st g avoid dep p)"
proof -
  let ?I = "\<lambda>acc :: ref dict. \<forall>(n, p) \<in> set acc.
      n = name (st p) \<and> (\<exists>dep \<in> set deps. is_parent_of st g avoid dep p)"
  have step: "?I (dict_set acc (name (st parent)) parent)"
    if "?I acc" "dep \<in> set deps" "layer \<in> set (layers g)" "parent \<in> set (Layer_iter layer)"
       "lists_child st avoid dep (dependencies (st parent))"
    for acc dep layer parent
  proof -
    have "is_parent_of st g avoid dep parent"
      using that(3,4,5) unfolding is_parent_of_lists_child by blast
    with that(1,2) show ?thesis
      using dict_set_entries[of acc "name (st parent)" parent] by fastforce
  qed
  show ?thesis
    unfolding collect_parents_def
    apply (rule foldl_invariant[where I = ?I])
     apply simp
    apply (rule foldl_invariant[where I = ?I])
     apply assumption
    apply (rule foldl_invariant[where I = ?I])
     apply assumption
    apply (simp only: split: if_split)
    apply (intro conjI impI)
     apply (rule step; assumption)
    apply assumption
    done
qed

lemma get_parents_entries:
  "set (get_parents st g deps avoid)
     \<subseteq> {(n, p). n = name (st p) \<and> (\<exists>layer \<in> set (layers g). p \<in> set (Layer_iter layer))}"
proof (induction st g deps avoid rule: get_parents.induct)
  case (1 st g deps avoid)
  have direct: "set (collect_parents st g deps avoid)
     \<subseteq> {(n, p). n = name (st p) \<and> (\<exists>layer \<in> set (layers g). p \<in> set (Layer_iter layer))}"
    using collect_parents_entries[of st g deps avoid] unfolding is_parent_of_def by fastforce
  show ?case
  proof (cases "collect_parents st g deps avoid \<noteq> []")
    case True
    then show ?thesis
      using "1.IH" direct
        dict_update_entries[of "collect_parents st g deps avoid"
          "get_parents st g (dict_values (collect_parents st g deps avoid))
             (avoid @ map (\<lambda>dep. name (st dep)) deps)"]
      by (subst get_parents.simps) (simp, blast)
  next
    case False
    then show ?thesis
      by (subst get_parents.simps) simp
  qed
qed

text \<open>
  C8, as the code has it. \<open>get_parents\<close> always returns. The graphed dependencies it
  collects in one pass are those that list among their children a dependency with the
  name of one of \<open>deps\<close>, where it is this name, the name of the starting dependency,
  that must not be in \<open>avoid\<close>; the name of the parent itself is not tested. The result
  holds them under their names, one per name, merged, when there are any, with the
  result of the same search from them with \<open>avoid\<close> grown by the names of \<open>deps\<close>.
  Every entry of the result is a graphed dependency stored under its name.
\<close>

theorem get_parents_collects:
  "\<exists>found. set found \<subseteq> {p. \<exists>dep \<in> set deps. is_parent_of st g avoid dep p}
     \<and> (\<lambda>p. name (st p)) ` set found
         = (\<lambda>p. name (st p)) ` {p. \<exists>dep \<in> set deps. is_parent_of st g avoid dep p}
     \<and> get_parents st g deps avoid =
         (if found = [] then []
          else dict_update (map (\<lambda>p. (name (st p), p)) found)
                 (get_parents st g found (avoid @ map (\<lambda>dep. name (st dep)) deps)))
     \<and> set (get_parents st g deps avoid)
         \<subseteq> {(n, p). n = name (st p) \<and> (\<exists>layer \<in> set (layers g). p \<in> set (Layer_iter layer))}"
proof -
  let ?direct = "collect_parents st g deps avoid"
  let ?found = "dict_values ?direct"
  have ent: "\<forall>(n, p) \<in> set ?direct. n = name (st p) \<and> (\<exists>dep \<in> set deps. is_parent_of st g avoid dep p)"
    by (rule collect_parents_entries)
  have a: "set ?found \<subseteq> {p. \<exists>dep \<in> set deps. is_parent_of st g avoid dep p}"
    using ent by (auto simp: dict_values_def)
  have same: "map (\<lambda>p. (name (st p), p)) ?found = ?direct"
    unfolding dict_values_def map_map
    by (rule map_idI) (use ent in auto)
  have "(\<lambda>p. name (st p)) ` set ?found = fst ` set (map (\<lambda>p. (name (st p), p)) ?found)"
    by (simp add: image_image)
  also have "\<dots> = fst ` set ?direct"
    by (simp only: same)
  finally have b: "(\<lambda>p. name (st p)) ` set ?found
         = (\<lambda>p. name (st p)) ` {p. \<exists>dep \<in> set deps. is_parent_of st g avoid dep p}"
    by (simp only: collect_parents_keys)
  have e: "?found = [] \<longleftrightarrow> ?direct = []"
    by (simp add: dict_values_def)
  have c: "get_parents st g deps avoid =
         (if ?found = [] then []
          else dict_update (map (\<lambda>p. (name (st p), p)) ?found)
                 (get_parents st g ?found (avoid @ map (\<lambda>dep. name (st dep)) deps)))"
    unfolding same e by (subst get_parents.simps) simp
  from a b c get_parents_entries[of st g deps avoid] show ?thesis
    by (intro exI[of _ ?found] conjI)
qed

theorem get_parents_avoid_counterexample:
  "get_parents ex_store ex_graph [2] [''a''] = [(''app'', 0), (''a'', 1)]
   \<and> name (ex_store 1) = ''a''"
  by code_simp

section \<open>What a match says about the input\<close>

text \<open>
  \<open>accepts r s g s' g'\<close>: the pattern \<open>r\<close> matches a prefix of \<open>s\<close>, leaves \<open>s'\<close> and turns
  the groups \<open>g\<close> into \<open>g'\<close>.
\<close>

fun accepts :: "rx \<Rightarrow> string \<Rightarrow> groups \<Rightarrow> string \<Rightarrow> groups \<Rightarrow> bool" where
  "accepts (Lit l) s g s' g' = (s = l @ s' \<and> g' = g)"
| "accepts (Cls c) s g s' g' = (\<exists>x. s = x # s' \<and> c x \<and> g' = g)"
| "accepts (Plus c) s g s' g' = (\<exists>w. w \<noteq> [] \<and> list_all c w \<and> s = w @ s' \<and> g' = g)"
| "accepts (PlusLazy c) s g s' g' = (\<exists>w. w \<noteq> [] \<and> list_all c w \<and> s = w @ s' \<and> g' = g)"
| "accepts (Opt r) s g s' g' = (accepts r s g s' g' \<or> (s' = s \<and> g' = g))"
| "accepts (Grp n r) s g s' g' =
     (\<exists>g''. accepts r s g s' g'' \<and> g' = g''(n \<mapsto> take (length s - length s') s))"
| "accepts (Seq a b) s g s' g' = (\<exists>s1 g1. accepts a s g s1 g1 \<and> accepts b s1 g1 s' g')"
| "accepts (Alt a b) s g s' g' = (accepts a s g s' g' \<or> accepts b s g s' g')"
| "accepts Eos s g s' g' = (s' = s \<and> g' = g \<and> (s = [] \<or> s = [CHR 0x0A]))"

fun group_names :: "rx \<Rightarrow> string set" where
  "group_names (Grp n r) = insert n (group_names r)"
| "group_names (Opt r) = group_names r"
| "group_names (Seq a b) = group_names a \<union> group_names b"
| "group_names (Alt a b) = group_names a \<union> group_names b"
| "group_names r = {}"

lemma first_some_Some: "first_some f ns = Some m \<Longrightarrow> \<exists>n \<in> set ns. f n = Some m"
  by (induction ns) (auto split: option.splits)

lemma run_prefix:
  assumes "1 \<le> n" and "n \<le> length (takeWhile c s)"
  shows "take n s \<noteq> [] \<and> list_all c (take n s) \<and> s = take n s @ drop n s"
proof -
  have "take n s = take n (takeWhile c s)"
    using assms(2) by (metis append_eq_conv_conj append_take_drop_id takeWhile_dropWhile_id take_all_iff take_take min.absorb1 take_append nat_le_linear)
  moreover have "list_all c (takeWhile c s)"
    by (simp add: list_all_iff) (meson set_takeWhileD)
  ultimately have "list_all c (take n s)"
    by (metis list_all_iff in_set_takeD)
  moreover have "take n s \<noteq> []"
    using assms by (cases s) auto
  ultimately show ?thesis by simp
qed

lemma rmatch_sound:
  "rmatch r s g k = Some m \<Longrightarrow> \<exists>s' g'. accepts r s g s' g' \<and> k s' g' = Some m"
proof (induction r arbitrary: s g k m)
  case (Lit l)
  then show ?case
    by (auto split: if_splits) (metis append_take_drop_id)
next
  case (Cls c)
  then show ?case by (auto split: list.splits if_splits)
next
  case (Plus c)
  then obtain n where n: "1 \<le> n" "n \<le> length (takeWhile c s)" "k (drop n s) g = Some m"
    by (auto dest!: first_some_Some)
  from run_prefix[OF n(1,2)] have "accepts (Plus c) s g (drop n s) g"
    unfolding accepts.simps by (intro exI[of _ "take n s"]) simp
  with n(3) show ?case by blast
next
  case (PlusLazy c)
  then obtain n where n: "1 \<le> n" "n \<le> length (takeWhile c s)" "k (drop n s) g = Some m"
    by (auto dest!: first_some_Some)
  from run_prefix[OF n(1,2)] have "accepts (PlusLazy c) s g (drop n s) g"
    unfolding accepts.simps by (intro exI[of _ "take n s"]) simp
  with n(3) show ?case by blast
next
  case (Opt r)
  then show ?case
    by (fastforce split: option.splits)
next
  case (Grp n r)
  from Grp.prems have "rmatch r s g (\<lambda>s' g'. k s' (g'(n \<mapsto> take (length s - length s') s))) = Some m"
    by simp
  from Grp.IH[OF this] obtain s' g'' where
    "accepts r s g s' g''" "k s' (g''(n \<mapsto> take (length s - length s') s)) = Some m"
    by blast
  then show ?case
    unfolding accepts.simps by blast
next
  case (Seq a b)
  from Seq.prems have "rmatch a s g (\<lambda>s' g'. rmatch b s' g' k) = Some m" by simp
  from Seq.IH(1)[OF this] obtain s1 g1 where
    a: "accepts a s g s1 g1" and "rmatch b s1 g1 k = Some m" by blast
  from Seq.IH(2)[OF this(2)] a show ?case by auto
next
  case (Alt a b)
  then show ?case
    by (fastforce split: option.splits)
next
  case Eos
  then show ?case by (auto split: if_splits)
qed

lemma accepts_rest: "accepts r s g s' g' \<Longrightarrow> \<exists>w. s = w @ s'"
proof (induction r arbitrary: s g s' g')
  case (Seq a b)
  then show ?case by (metis accepts.simps(7) append.assoc)
qed auto

lemma accepts_keeps: "accepts r s g s' g' \<Longrightarrow> n \<notin> group_names r \<Longrightarrow> g' n = g n"
proof (induction r arbitrary: s g s' g')
  case (Seq a b)
  then show ?case by (metis accepts.simps(7) group_names.simps(3) UnCI)
qed auto

lemma rex_search_fields:
  assumes "rex_search link = Some g"
  shows "\<exists>pre srv sep aut prj post.
           link = pre @ srv @ sep # aut @ ''/'' @ prj @ post
           \<and> colon_or_slash sep \<and> srv \<noteq> [] \<and> aut \<noteq> [] \<and> prj \<noteq> []
           \<and> g ''server'' = Some srv \<and> g ''author'' = Some aut \<and> g ''project'' = Some prj"
proof -
  define o1 where "o1 = Opt (Seq (Grp ''vcs'' (Plus lower)) (Lit ''+''))"
  define o2 where "o2 =
    Opt (Seq (Grp ''protocol'' (Alt (Lit ''ssh'') (Alt (Lit ''https'') (Lit ''http'')))) (Lit ''://''))"
  define o3 where "o3 = Opt (Seq (Grp ''user'' (Plus dot)) (Lit ''@''))"
  define rest where "rest =
     Seq (Opt (Grp ''ext'' (Lit ''.git'')))
    (Seq (Opt (Seq (Lit ''@'') (Grp ''rev'' (Plus dot))))
    (Seq (Opt (Seq (Lit ''#egg='') (Grp ''name'' (Plus dot))))
         Eos))"
  define srv_rx where "srv_rx = Seq (Grp ''server'' (Plus not_slash)) (Cls colon_or_slash)"
  define aut_rx where "aut_rx = Seq (Grp ''author'' (Plus dot)) (Lit ''/'')"
  define prj_rx where "prj_rx = Grp ''project'' (PlusLazy project_char)"
  have rex_eq: "rex = Seq o1 (Seq o2 (Seq o3 (Seq srv_rx (Seq aut_rx (Seq prj_rx rest)))))"
    unfolding rex_def o1_def o2_def o3_def rest_def srv_rx_def aut_rx_def prj_rx_def ..
  from assms obtain s' where acc: "accepts rex link Map.empty s' g"
    unfolding rex_search_def by (auto dest!: rmatch_sound)
  from acc obtain s1 g1 where h1: "accepts o1 link Map.empty s1 g1"
    and r1: "accepts (Seq o2 (Seq o3 (Seq srv_rx (Seq aut_rx (Seq prj_rx rest))))) s1 g1 s' g"
    unfolding rex_eq accepts.simps(7) by blast
  from r1 obtain s2 g2 where h2: "accepts o2 s1 g1 s2 g2"
    and r2: "accepts (Seq o3 (Seq srv_rx (Seq aut_rx (Seq prj_rx rest)))) s2 g2 s' g"
    unfolding accepts.simps(7) by blast
  from r2 obtain s3 g3 where h3: "accepts o3 s2 g2 s3 g3"
    and r3: "accepts (Seq srv_rx (Seq aut_rx (Seq prj_rx rest))) s3 g3 s' g"
    unfolding accepts.simps(7) by blast
  from r3 obtain s4 g4 where sv: "accepts srv_rx s3 g3 s4 g4"
    and r4: "accepts (Seq aut_rx (Seq prj_rx rest)) s4 g4 s' g"
    unfolding accepts.simps(7) by blast
  from r4 obtain s5 g5 where au: "accepts aut_rx s4 g4 s5 g5"
    and r5: "accepts (Seq prj_rx rest) s5 g5 s' g"
    unfolding accepts.simps(7) by blast
  from r5 obtain s6 g6 where pr: "accepts prj_rx s5 g5 s6 g6"
    and re: "accepts rest s6 g6 s' g"
    unfolding accepts.simps(7) by blast
  from h1 h2 h3 obtain w1 w2 w3 where "link = w1 @ s1" "s1 = w2 @ s2" "s2 = w3 @ s3"
    by (meson accepts_rest)
  then have "link = (w1 @ w2 @ w3) @ s3" by simp
  then obtain pre where pre: "link = pre @ s3" ..
  from re obtain post where post: "s6 = post @ s'"
    by (auto dest: accepts_rest)
  from sv obtain srv sep where srv: "s3 = srv @ sep # s4" "srv \<noteq> []" "colon_or_slash sep"
    "g4 = g3(''server'' \<mapsto> srv)"
    unfolding srv_rx_def by auto
  from au obtain aut where aut: "s4 = aut @ ''/'' @ s5" "aut \<noteq> []" "g5 = g4(''author'' \<mapsto> aut)"
    unfolding aut_rx_def by auto
  from pr obtain prj where prj: "s5 = prj @ s6" "prj \<noteq> []" "g6 = g5(''project'' \<mapsto> prj)"
    unfolding prj_rx_def by auto
  have names: "group_names rest = {''ext'', ''rev'', ''name''}"
    by (auto simp: rest_def)
  have "g ''server'' = g6 ''server''" "g ''author'' = g6 ''author''" "g ''project'' = g6 ''project''"
    using accepts_keeps[OF re] by (simp_all add: names)
  then have "g ''server'' = Some srv" "g ''author'' = Some aut" "g ''project'' = Some prj"
    by (simp_all add: srv(4) aut(3) prj(3))
  moreover have "link = pre @ srv @ sep # aut @ ''/'' @ prj @ (post @ s')"
    by (simp add: pre srv(1) aut(1) prj(1) post)
  ultimately show ?thesis
    using srv(2,3) aut(2) prj(2) by blast
qed

text \<open>
  C10. \<open>parse\<close> never raises. It returns \<open>None\<close> exactly when the pattern does not match
  the input. When it returns a link, the server, the author and the project of the link
  are not empty and are read from the input: the input contains the server, a colon or
  a slash, the author, a slash and the project, one after the other.
\<close>

theorem parse_none_or_populated:
  "(\<forall>e. parse link vcs_arg rev_arg name_arg \<noteq> Inl e)
   \<and> (parse link vcs_arg rev_arg name_arg = Inr None \<longleftrightarrow> rex_search link = None)
   \<and> (\<forall>l. parse link vcs_arg rev_arg name_arg = Inr (Some l) \<longrightarrow>
         server l \<noteq> [] \<and> author l \<noteq> [] \<and> project l \<noteq> []
         \<and> (\<exists>pre sep post. link = pre @ server l @ sep # author l @ ''/'' @ project l @ post
                \<and> colon_or_slash sep))"
proof (cases "rex_search link")
  case None
  then show ?thesis by (simp add: parse_def)
next
  case (Some g)
  from rex_search_fields[OF Some] obtain pre srv sep aut prj post where
    f: "link = pre @ srv @ sep # aut @ ''/'' @ prj @ post" "colon_or_slash sep"
       "srv \<noteq> []" "aut \<noteq> []" "prj \<noteq> []"
       "g ''server'' = Some srv" "g ''author'' = Some aut" "g ''project'' = Some prj"
    by blast
  have "\<exists>l. parse link vcs_arg rev_arg name_arg = Inr (Some l)
          \<and> server l = srv \<and> author l = aut \<and> project l = prj"
    using f(6,7,8)
    by (auto simp: parse_def Some Let_def VCSLink_init_def split: option.splits)
  then obtain l where l: "parse link vcs_arg rev_arg name_arg = Inr (Some l)"
    "server l = srv" "author l = aut" "project l = prj" by blast
  show ?thesis
    using l f(1-5) Some by auto
qed

lemma ex_no_match: "rex_search ''nothing'' = None"
  by code_simp

lemma ex_https_link:
  "parse ''https://github.com/r1chardj0n3s/parse.git'' ''git'' None None =
     Inr (Some \<lparr>server = ''github.com'', author = ''r1chardj0n3s'', project = ''parse'',
                vcs = ''git'', protocol = ''https'', user = None, ext = Some ''.git'',
                link_rev = None, link_name = Some ''parse''\<rparr>)"
  by code_simp

theorem parse_none_or_populated_witness:
  "rex_search ''nothing'' = None
   \<and> parse ''nothing'' ''git'' None None = Inr None
   \<and> parse ''https://github.com/r1chardj0n3s/parse.git'' ''git'' None None =
       Inr (Some \<lparr>server = ''github.com'', author = ''r1chardj0n3s'', project = ''parse'',
                  vcs = ''git'', protocol = ''https'', user = None, ext = Some ''.git'',
                  link_rev = None, link_name = Some ''parse''\<rparr>)
   \<and> (\<exists>pre sep post. ''https://github.com/r1chardj0n3s/parse.git''
          = pre @ ''github.com'' @ sep # ''r1chardj0n3s'' @ ''/'' @ ''parse'' @ post
        \<and> colon_or_slash sep)"
proof -
  note t1 = parse_none_or_populated[of "''nothing''" "''git''" None None]
  note t2 = parse_none_or_populated[of "''https://github.com/r1chardj0n3s/parse.git''" "''git''" None None]
  from t1 ex_no_match have a: "parse ''nothing'' ''git'' None None = Inr None"
    by blast
  from t2 ex_https_link have "\<exists>pre sep post. ''https://github.com/r1chardj0n3s/parse.git''
          = pre @ server \<lparr>server = ''github.com'', author = ''r1chardj0n3s'', project = ''parse'',
                  vcs = ''git'', protocol = ''https'', user = None, ext = Some ''.git'',
                  link_rev = None, link_name = Some ''parse''\<rparr>
            @ sep # author \<lparr>server = ''github.com'', author = ''r1chardj0n3s'', project = ''parse'',
                  vcs = ''git'', protocol = ''https'', user = None, ext = Some ''.git'',
                  link_rev = None, link_name = Some ''parse''\<rparr>
            @ ''/'' @ project \<lparr>server = ''github.com'', author = ''r1chardj0n3s'', project = ''parse'',
                  vcs = ''git'', protocol = ''https'', user = None, ext = Some ''.git'',
                  link_rev = None, link_name = Some ''parse''\<rparr> @ post
        \<and> colon_or_slash sep"
    by blast
  then have b: "\<exists>pre sep post. ''https://github.com/r1chardj0n3s/parse.git''
          = pre @ ''github.com'' @ sep # ''r1chardj0n3s'' @ ''/'' @ ''parse'' @ post
        \<and> colon_or_slash sep"
    by simp
  from ex_no_match a ex_https_link b show ?thesis by blast
qed

section \<open>Matching a link with a commit hash\<close>

lemma first_some_append:
  "first_some f (xs @ ys) = (case first_some f xs of Some r \<Rightarrow> Some r | None \<Rightarrow> first_some f ys)"
  by (induction xs) (auto split: option.splits)

lemma first_some_none: "(\<And>n. n \<in> set ns \<Longrightarrow> f n = None) \<Longrightarrow> first_some f ns = None"
  by (induction ns) auto

lemma upt_split:
  assumes "1 \<le> m" and "m \<le> N"
  shows "[1 ..< Suc N] = [1 ..< m] @ m # [Suc m ..< Suc N]"
proof -
  have "[1 ..< m + (Suc N - m)] = [1 ..< m] @ [m ..< m + (Suc N - m)]"
    using assms(1) by (rule upt_add_eq_append)
  moreover have "m + (Suc N - m) = Suc N"
    using assms(2) by simp
  moreover have "[m ..< Suc N] = m # [Suc m ..< Suc N]"
    using assms(2) by (simp add: upt_conv_Cons)
  ultimately show ?thesis by simp
qed

lemma greedy_pick:
  assumes "1 \<le> m" and "m \<le> N" and "f m = Some r"
    and "\<And>j. m < j \<Longrightarrow> j \<le> N \<Longrightarrow> f j = None"
  shows "first_some f (rev [1 ..< Suc N]) = Some r"
proof -
  have "[1 ..< Suc N] = [1 ..< m] @ m # [Suc m ..< Suc N]"
    using assms(1,2) by (rule upt_split)
  then have "rev [1 ..< Suc N] = rev [Suc m ..< Suc N] @ m # rev [1 ..< m]"
    by simp
  moreover have "first_some f (rev [Suc m ..< Suc N]) = None"
    by (rule first_some_none) (use assms(4) in auto)
  ultimately show ?thesis
    by (simp add: first_some_append assms(3))
qed

lemma lazy_pick:
  assumes "1 \<le> m" and "m \<le> N" and "f m = Some r"
    and "\<And>j. 1 \<le> j \<Longrightarrow> j < m \<Longrightarrow> f j = None"
  shows "first_some f [1 ..< Suc N] = Some r"
proof -
  have "[1 ..< Suc N] = [1 ..< m] @ m # [Suc m ..< Suc N]"
    using assms(1,2) by (rule upt_split)
  moreover have "first_some f [1 ..< m] = None"
    by (rule first_some_none) (use assms(4) in auto)
  ultimately show ?thesis
    by (simp add: first_some_append assms(3))
qed

lemma run_covers: "list_all c a \<Longrightarrow> length a \<le> length (takeWhile c (a @ t))"
  by (induction a) auto

lemma greedy_then_cls:
  assumes s: "s = a @ x # t" and a: "a \<noteq> []" "list_all c a" and x: "d x"
    and ok: "rmatch T t (g(n \<mapsto> a)) k = Some m"
    and later: "\<And>u y v. t = u @ y # v \<Longrightarrow> d y \<Longrightarrow> rmatch T v (g(n \<mapsto> a @ x # u)) k = None"
  shows "rmatch (Seq (Seq (Grp n (Plus c)) (Cls d)) T) s g k = Some m"
proof -
  let ?F = "\<lambda>j. case drop j s of [] \<Rightarrow> None
              | y # s' \<Rightarrow> if d y then rmatch T s' (g(n \<mapsto> take (length s - length (drop j s)) s)) k else None"
  let ?N = "length (takeWhile c s)"
  have unfold: "rmatch (Seq (Seq (Grp n (Plus c)) (Cls d)) T) s g k = first_some ?F (rev [1 ..< Suc ?N])"
    by simp
  have "first_some ?F (rev [1 ..< Suc ?N]) = Some m"
  proof (rule greedy_pick[where m = "length a"])
    show "1 \<le> length a" using a(1) by (cases a) auto
    show "length a \<le> ?N" unfolding s using a(2) by (rule run_covers)
    show "?F (length a) = Some m"
      using x ok by (simp add: s)
  next
    fix j assume j: "length a < j" "j \<le> ?N"
    have jl: "j \<le> length s"
      using j(2) length_takeWhile_le[of c s] by simp
    define i where "i = j - Suc (length a)"
    have ji: "j - length a = Suc i"
      using j(1) by (simp add: i_def)
    have dj: "drop j s = drop i t" and tj: "take j s = a @ x # take i t"
      using j(1) by (simp_all add: s ji)
    show "?F j = None"
    proof (cases "drop j s")
      case Nil
      then show ?thesis by simp
    next
      case (Cons y v)
      then have t: "t = take i t @ y # v"
        using dj by (metis append_take_drop_id)
      have "length s - length (drop j s) = j"
        using jl by simp
      then have len: "length s - Suc (length v) = j"
        by (simp add: Cons)
      show ?thesis
      proof (cases "d y")
        case True
        from later[OF t True] show ?thesis
          by (simp add: Cons True len tj)
      next
        case False
        then show ?thesis by (simp add: Cons)
      qed
    qed
  qed
  with unfold show ?thesis by simp
qed

lemma greedy_then_cls_none:
  assumes "\<And>y. y \<in> set s \<Longrightarrow> \<not> d y"
  shows "rmatch (Seq (Seq (Grp n (Plus c)) (Cls d)) T) s g k = None"
proof -
  have "first_some (\<lambda>j. case drop j s of [] \<Rightarrow> None
              | y # s' \<Rightarrow> if d y then rmatch T s' (g(n \<mapsto> take (length s - length (drop j s)) s)) k else None)
          (rev [1 ..< Suc (length (takeWhile c s))]) = None"
  proof (rule first_some_none)
    fix j
    show "(case drop j s of [] \<Rightarrow> None
              | y # s' \<Rightarrow> if d y then rmatch T s' (g(n \<mapsto> take (length s - length (drop j s)) s)) k else None) = None"
    proof (cases "drop j s")
      case Nil
      then show ?thesis by simp
    next
      case (Cons y v)
      then have "y \<in> set s"
        by (metis in_set_dropD list.set_intros(1))
      with assms show ?thesis by (simp add: Cons)
    qed
  qed
  then show ?thesis by simp
qed

lemma lit_as_cls: "rmatch (Lit [x]) s g k = rmatch (Cls (\<lambda>z. z = x)) s g k"
  by (cases s) auto

lemma plus_lit_as_cls:
  "rmatch (Seq (Seq (Grp n (Plus c)) (Lit [x])) T) s g k
     = rmatch (Seq (Seq (Grp n (Plus c)) (Cls (\<lambda>z. z = x))) T) s g k"
  by (simp only: rmatch.simps(6,7) lit_as_cls)

lemma lazy_then:
  assumes s: "s = a @ t" and a: "a \<noteq> []" "list_all c a"
    and ok: "rmatch T t (g(n \<mapsto> a)) k = Some m"
    and earlier: "\<And>j. 1 \<le> j \<Longrightarrow> j < length a \<Longrightarrow> rmatch T (drop j s) (g(n \<mapsto> take j s)) k = None"
  shows "rmatch (Seq (Grp n (PlusLazy c)) T) s g k = Some m"
proof -
  let ?F = "\<lambda>j. rmatch T (drop j s) (g(n \<mapsto> take (length s - length (drop j s)) s)) k"
  let ?N = "length (takeWhile c s)"
  have unfold: "rmatch (Seq (Grp n (PlusLazy c)) T) s g k = first_some ?F [1 ..< Suc ?N]"
    by simp
  have "first_some ?F [1 ..< Suc ?N] = Some m"
  proof (rule lazy_pick[where m = "length a"])
    show "1 \<le> length a" using a(1) by (cases a) auto
    show "length a \<le> ?N" unfolding s using a(2) by (rule run_covers)
    show "?F (length a) = Some m"
      using ok by (simp add: s)
  next
    fix j assume j: "1 \<le> j" "j < length a"
    then have "length s - length (drop j s) = j"
      by (simp add: s)
    with earlier[OF j] show "?F j = None" by simp
  qed
  with unfold show ?thesis by simp
qed

lemma hex_digit_props:
  assumes "hex_digit c"
  shows "dot c" "not_slash c" "\<not> colon_or_slash c" "project_char c"
    "c \<noteq> CHR ''@''" "c \<noteq> CHR ''/''" "c \<noteq> CHR ''+''"
  using assms
  by (auto simp: hex_digit_def dot_def not_slash_def colon_or_slash_def project_char_def space_def)

text \<open>Steps of the matcher through a sequence, with the rest of the pattern as \<open>T\<close>.\<close>

lemma seq_opt:
  "rmatch (Seq (Opt X) T) s g k =
     (case rmatch (Seq X T) s g k of Some m \<Rightarrow> Some m | None \<Rightarrow> rmatch T s g k)"
  by simp

lemma seq_assoc: "rmatch (Seq (Seq a b) T) s g k = rmatch (Seq a (Seq b T)) s g k"
  by simp

lemma seq_lit: "rmatch (Seq (Lit l) T) (l @ t) g k = rmatch T t g k"
  by simp

lemma seq_lit_fails: "take (length l) s \<noteq> l \<Longrightarrow> rmatch (Seq (Lit l) T) s g k = None"
  by simp

lemma seq_grp_lit: "rmatch (Seq (Grp n (Lit l)) T) (l @ t) g k = rmatch T t (g(n \<mapsto> l)) k"
  by simp

lemma seq_grp_lit_fails: "take (length l) s \<noteq> l \<Longrightarrow> rmatch (Seq (Grp n (Lit l)) T) s g k = None"
  by simp

lemma seq_grp_plus_to_end:
  assumes "list_all c r" and "r \<noteq> []" and "rmatch T [] (g(n \<mapsto> r)) k = Some m"
  shows "rmatch (Seq (Grp n (Plus c)) T) r g k = Some m"
proof -
  let ?F = "\<lambda>j. rmatch T (drop j r) (g(n \<mapsto> take (length r - length (drop j r)) r)) k"
  let ?N = "length (takeWhile c r)"
  have "takeWhile c r = r"
    using assms(1) by (simp add: list_all_iff)
  then have tw: "?N = length r"
    by (rule arg_cong)
  have unfold: "rmatch (Seq (Grp n (Plus c)) T) r g k = first_some ?F (rev [1 ..< Suc ?N])"
    by (simp only: rmatch.simps)
  have "first_some ?F (rev [1 ..< Suc ?N]) = Some m"
  proof (rule greedy_pick[where m = "length r"])
    show "1 \<le> length r" using assms(2) by (cases r) auto
    show "length r \<le> ?N" by (simp only: tw)
    show "?F (length r) = Some m" using assms(3) by simp
    show "\<And>j. length r < j \<Longrightarrow> j \<le> ?N \<Longrightarrow> ?F j = None"
      by (metis tw not_less)
  qed
  with unfold show ?thesis by (simp only:)
qed

definition rex_rest :: rx where
  "rex_rest =
     Seq (Opt (Grp ''ext'' (Lit ''.git'')))
    (Seq (Opt (Seq (Lit ''@'') (Grp ''rev'' (Plus dot))))
    (Seq (Opt (Seq (Lit ''#egg='') (Grp ''name'' (Plus dot))))
         Eos))"

definition rex_from_project :: rx where
  "rex_from_project = Seq (Grp ''project'' (PlusLazy project_char)) rex_rest"

definition rex_from_author :: rx where
  "rex_from_author = Seq (Seq (Grp ''author'' (Plus dot)) (Lit ''/'')) rex_from_project"

definition rex_from_server :: rx where
  "rex_from_server = Seq (Seq (Grp ''server'' (Plus not_slash)) (Cls colon_or_slash)) rex_from_author"

lemma rex_split:
  "rex =
     Seq (Opt (Seq (Grp ''vcs'' (Plus lower)) (Lit ''+'')))
    (Seq (Opt (Seq (Grp ''protocol'' (Alt (Lit ''ssh'') (Alt (Lit ''https'') (Lit ''http'')))) (Lit ''://'')))
    (Seq (Opt (Seq (Grp ''user'' (Plus dot)) (Lit ''@''))) rex_from_server))"
  by (simp add: rex_def rex_from_server_def rex_from_author_def rex_from_project_def rex_rest_def)

lemma rest_at_end: "rmatch (Seq (Opt (Seq (Lit ''#egg='') (Grp ''name'' (Plus dot)))) Eos) [] g (\<lambda>s' g'. Some g') = Some g"
  by simp

lemma rest_after_project:
  assumes "list_all hex_digit r" and "r \<noteq> []"
  shows "rmatch rex_rest (''.git@'' @ r) g (\<lambda>s' g'. Some g') = Some (g(''ext'' \<mapsto> ''.git'', ''rev'' \<mapsto> r))"
proof -
  let ?T8 = "Seq (Opt (Seq (Lit ''#egg='') (Grp ''name'' (Plus dot)))) Eos"
  let ?T7 = "Seq (Opt (Seq (Lit ''@'') (Grp ''rev'' (Plus dot)))) ?T8"
  let ?K = "\<lambda>(s' :: string) (g' :: groups). Some g'"
  have dots: "list_all dot r"
    using assms(1) by (simp add: list_all_iff hex_digit_props)
  have "rmatch (Seq (Grp ''rev'' (Plus dot)) ?T8) r (g(''ext'' \<mapsto> ''.git'')) ?K
      = Some (g(''ext'' \<mapsto> ''.git'', ''rev'' \<mapsto> r))"
    using dots assms(2) by (rule seq_grp_plus_to_end) (rule rest_at_end)
  then have "rmatch (Seq (Lit ''@'') (Seq (Grp ''rev'' (Plus dot)) ?T8)) (''@'' @ r) (g(''ext'' \<mapsto> ''.git'')) ?K
      = Some (g(''ext'' \<mapsto> ''.git'', ''rev'' \<mapsto> r))"
    by (simp only: seq_lit)
  then have "rmatch ?T7 (''@'' @ r) (g(''ext'' \<mapsto> ''.git'')) ?K
      = Some (g(''ext'' \<mapsto> ''.git'', ''rev'' \<mapsto> r))"
    by (simp only: seq_opt seq_assoc option.case)
  then have "rmatch (Seq (Grp ''ext'' (Lit ''.git'')) ?T7) (''.git'' @ ''@'' @ r) g ?K
      = Some (g(''ext'' \<mapsto> ''.git'', ''rev'' \<mapsto> r))"
    by (simp only: seq_grp_lit)
  then have "rmatch rex_rest (''.git'' @ ''@'' @ r) g ?K
      = Some (g(''ext'' \<mapsto> ''.git'', ''rev'' \<mapsto> r))"
    unfolding rex_rest_def by (simp only: seq_opt option.case)
  then show ?thesis by simp
qed

lemma rest_needs_marker:
  assumes "t = c # u" and "u \<noteq> []"
    and "c \<noteq> CHR ''.''" and "c \<noteq> CHR ''@''" and "c \<noteq> CHR ''#''"
  shows "rmatch rex_rest t g (\<lambda>s' g'. Some g') = None"
proof -
  let ?K = "\<lambda>(s' :: string) (g' :: groups). Some g'"
  let ?T8 = "Seq (Opt (Seq (Lit ''#egg='') (Grp ''name'' (Plus dot)))) Eos"
  let ?T7 = "Seq (Opt (Seq (Lit ''@'') (Grp ''rev'' (Plus dot)))) ?T8"
  have a: "rmatch (Seq (Grp ''ext'' (Lit ''.git'')) ?T7) t g ?K = None"
    by (rule seq_grp_lit_fails) (simp add: assms)
  have "rmatch (Seq (Lit ''@'') (Seq (Grp ''rev'' (Plus dot)) ?T8)) t g ?K = None"
    by (rule seq_lit_fails) (simp add: assms)
  then have b: "rmatch (Seq (Seq (Lit ''@'') (Grp ''rev'' (Plus dot))) ?T8) t g ?K = None"
    by (simp only: seq_assoc)
  have "rmatch (Seq (Lit ''#egg='') (Seq (Grp ''name'' (Plus dot)) Eos)) t g ?K = None"
    by (rule seq_lit_fails) (simp add: assms)
  then have c: "rmatch (Seq (Seq (Lit ''#egg='') (Grp ''name'' (Plus dot))) Eos) t g ?K = None"
    by (simp only: seq_assoc)
  have d: "rmatch Eos t g ?K = None"
    using assms(1,2) by simp
  show ?thesis
    unfolding rex_rest_def by (simp only: seq_opt a b c d option.case)
qed

lemma project_found:
  assumes "list_all hex_digit r" and "r \<noteq> []"
  shows "rmatch rex_from_project (''repo.git@'' @ r) g (\<lambda>s' g'. Some g')
           = Some (g(''project'' \<mapsto> ''repo'', ''ext'' \<mapsto> ''.git'', ''rev'' \<mapsto> r))"
  unfolding rex_from_project_def
proof (rule lazy_then[where a = "''repo''" and t = "''.git@'' @ r"])
  show "''repo.git@'' @ r = ''repo'' @ ''.git@'' @ r" by simp
  show "''repo'' \<noteq> []" by simp
  show "list_all project_char ''repo''"
    by (simp add: project_char_def space_def)
  show "rmatch rex_rest (''.git@'' @ r) (g(''project'' \<mapsto> ''repo'')) (\<lambda>s' g'. Some g')
          = Some (g(''project'' \<mapsto> ''repo'', ''ext'' \<mapsto> ''.git'', ''rev'' \<mapsto> r))"
    using assms by (rule rest_after_project)
next
  fix j :: nat
  assume "1 \<le> j" and "j < length ''repo''"
  then have "j = 1 \<or> j = 2 \<or> j = 3" by (simp; arith)
  then obtain c u where "drop j (''repo.git@'' @ r) = c # u" "u \<noteq> []"
    "c \<noteq> CHR ''.''" "c \<noteq> CHR ''@''" "c \<noteq> CHR ''#''"
    by (auto simp: numeral_2_eq_2 numeral_3_eq_3)
  then show "rmatch rex_rest (drop j (''repo.git@'' @ r))
               (g(''project'' \<mapsto> take j (''repo.git@'' @ r))) (\<lambda>s' g'. Some g') = None"
    by (rule rest_needs_marker)
qed

lemma split_unique:
  assumes "list_all (\<lambda>z. \<not> d z) p" and "list_all (\<lambda>z. \<not> d z) q"
    and "p @ x # q = u @ y # v" and "d y"
  shows "u = p \<and> y = x \<and> v = q"
  using assms
proof (induction p arbitrary: u)
  case Nil
  then show ?case
    by (cases u) (auto simp: list_all_iff)
next
  case (Cons z p)
  then show ?case
    by (cases u) (auto simp: list_all_iff)
qed

lemma no_split:
  assumes "list_all (\<lambda>z. \<not> d z) t" and "t = u @ y # v" and "d y"
  shows False
  using assms by (auto simp: list_all_iff)

lemma hex_run:
  assumes "list_all hex_digit r"
  shows "list_all dot r" "list_all not_slash r" "list_all (\<lambda>z. \<not> colon_or_slash z) r"
    "list_all project_char r" "list_all (\<lambda>z. \<not> z = CHR ''@'') r"
    "list_all (\<lambda>z. \<not> z = CHR ''/'') r" "list_all (\<lambda>z. \<not> z = CHR ''+'') r"
  using assms by (simp_all add: list_all_iff hex_digit_props)

lemma author_found:
  assumes "list_all hex_digit r" and "r \<noteq> []"
  shows "rmatch rex_from_author (''org/repo.git@'' @ r) g (\<lambda>s' g'. Some g')
           = Some (g(''author'' \<mapsto> ''org'', ''project'' \<mapsto> ''repo'', ''ext'' \<mapsto> ''.git'',
                     ''rev'' \<mapsto> r))"
  unfolding rex_from_author_def plus_lit_as_cls
proof (rule greedy_then_cls[where a = "''org''" and x = "CHR ''/''" and t = "''repo.git@'' @ r"])
  show "''org/repo.git@'' @ r = ''org'' @ CHR ''/'' # ''repo.git@'' @ r" by simp
  show "''org'' \<noteq> []" by simp
  show "list_all dot ''org''" by (simp add: dot_def)
  show "CHR ''/'' = CHR ''/''" ..
  show "rmatch rex_from_project (''repo.git@'' @ r) (g(''author'' \<mapsto> ''org'')) (\<lambda>s' g'. Some g')
          = Some (g(''author'' \<mapsto> ''org'', ''project'' \<mapsto> ''repo'', ''ext'' \<mapsto> ''.git'',
                    ''rev'' \<mapsto> r))"
    using assms by (rule project_found)
next
  fix u y v
  assume "''repo.git@'' @ r = u @ y # v" and "y = CHR ''/''"
  moreover have "list_all (\<lambda>z. \<not> z = CHR ''/'') (''repo.git@'' @ r)"
    using hex_run(6)[OF assms(1)] by simp
  ultimately have False by (rule no_split[rotated])
  then show "rmatch rex_from_project v (g(''author'' \<mapsto> ''org'' @ CHR ''/'' # u)) (\<lambda>s' g'. Some g') = None" ..
qed

lemma author_missing:
  assumes "list_all hex_digit r"
  shows "rmatch rex_from_author (''repo.git@'' @ r) g (\<lambda>s' g'. Some g') = None"
  unfolding rex_from_author_def plus_lit_as_cls
proof (rule greedy_then_cls_none)
  fix y assume "y \<in> set (''repo.git@'' @ r)"
  then show "y \<noteq> CHR ''/''"
    using hex_run(6)[OF assms] by (auto simp: list_all_iff)
qed

lemma server_found:
  assumes "list_all hex_digit r" and "r \<noteq> []"
  shows "rmatch rex_from_server (''github.com:org/repo.git@'' @ r) g (\<lambda>s' g'. Some g')
           = Some (g(''server'' \<mapsto> ''github.com'', ''author'' \<mapsto> ''org'', ''project'' \<mapsto> ''repo'',
                     ''ext'' \<mapsto> ''.git'', ''rev'' \<mapsto> r))"
  unfolding rex_from_server_def
proof (rule greedy_then_cls[where a = "''github.com''" and x = "CHR '':''" and t = "''org/repo.git@'' @ r"])
  show "''github.com:org/repo.git@'' @ r = ''github.com'' @ CHR '':'' # ''org/repo.git@'' @ r" by simp
  show "''github.com'' \<noteq> []" by simp
  show "list_all not_slash ''github.com''" by (simp add: not_slash_def)
  show "colon_or_slash CHR '':''" by (simp add: colon_or_slash_def)
  show "rmatch rex_from_author (''org/repo.git@'' @ r) (g(''server'' \<mapsto> ''github.com'')) (\<lambda>s' g'. Some g')
          = Some (g(''server'' \<mapsto> ''github.com'', ''author'' \<mapsto> ''org'', ''project'' \<mapsto> ''repo'',
                    ''ext'' \<mapsto> ''.git'', ''rev'' \<mapsto> r))"
    using assms by (rule author_found)
next
  fix u y v
  assume split: "''org/repo.git@'' @ r = u @ y # v" and y: "colon_or_slash y"
  have "list_all (\<lambda>z. \<not> colon_or_slash z) ''org''"
    by (simp add: colon_or_slash_def)
  moreover have "list_all (\<lambda>z. \<not> colon_or_slash z) (''repo.git@'' @ r)"
    using hex_run(3)[OF assms(1)] by (simp add: colon_or_slash_def)
  moreover have "''org'' @ CHR ''/'' # ''repo.git@'' @ r = u @ y # v"
    using split by simp
  ultimately have "u = ''org'' \<and> y = CHR ''/'' \<and> v = ''repo.git@'' @ r"
    using y by (rule split_unique)
  then show "rmatch rex_from_author v (g(''server'' \<mapsto> ''github.com'' @ CHR '':'' # u)) (\<lambda>s' g'. Some g') = None"
    using author_missing[OF assms(1)] by simp
qed

lemma server_missing:
  assumes "list_all hex_digit r"
  shows "rmatch rex_from_server r g (\<lambda>s' g'. Some g') = None"
  unfolding rex_from_server_def
proof (rule greedy_then_cls_none)
  fix y assume "y \<in> set r"
  then show "\<not> colon_or_slash y"
    using hex_run(3)[OF assms] by (auto simp: list_all_iff)
qed

lemma user_found:
  assumes "list_all hex_digit r" and "r \<noteq> []"
  shows "rmatch (Seq (Opt (Seq (Grp ''user'' (Plus dot)) (Lit ''@''))) rex_from_server)
           (''git@github.com:org/repo.git@'' @ r) g (\<lambda>s' g'. Some g')
           = Some (g(''user'' \<mapsto> ''git'', ''server'' \<mapsto> ''github.com'', ''author'' \<mapsto> ''org'',
                     ''project'' \<mapsto> ''repo'', ''ext'' \<mapsto> ''.git'', ''rev'' \<mapsto> r))"
proof -
  have inner: "rmatch (Seq (Seq (Grp ''user'' (Plus dot)) (Lit ''@'')) rex_from_server)
           (''git@github.com:org/repo.git@'' @ r) g (\<lambda>s' g'. Some g')
           = Some (g(''user'' \<mapsto> ''git'', ''server'' \<mapsto> ''github.com'', ''author'' \<mapsto> ''org'',
                     ''project'' \<mapsto> ''repo'', ''ext'' \<mapsto> ''.git'', ''rev'' \<mapsto> r))"
    unfolding plus_lit_as_cls
  proof (rule greedy_then_cls[where a = "''git''" and x = "CHR ''@''"
        and t = "''github.com:org/repo.git@'' @ r"])
    show "''git@github.com:org/repo.git@'' @ r = ''git'' @ CHR ''@'' # ''github.com:org/repo.git@'' @ r"
      by simp
    show "''git'' \<noteq> []" by simp
    show "list_all dot ''git''" by (simp add: dot_def)
    show "CHR ''@'' = CHR ''@''" ..
    show "rmatch rex_from_server (''github.com:org/repo.git@'' @ r) (g(''user'' \<mapsto> ''git'')) (\<lambda>s' g'. Some g')
          = Some (g(''user'' \<mapsto> ''git'', ''server'' \<mapsto> ''github.com'', ''author'' \<mapsto> ''org'',
                     ''project'' \<mapsto> ''repo'', ''ext'' \<mapsto> ''.git'', ''rev'' \<mapsto> r))"
      using assms by (rule server_found)
  next
    fix u y v
    assume split: "''github.com:org/repo.git@'' @ r = u @ y # v" and y: "y = CHR ''@''"
    have "list_all (\<lambda>z. \<not> z = CHR ''@'') ''github.com:org/repo.git''"
      by simp
    moreover have "list_all (\<lambda>z. \<not> z = CHR ''@'') r"
      using assms(1) by (rule hex_run(5))
    moreover have "''github.com:org/repo.git'' @ CHR ''@'' # r = u @ y # v"
      using split by simp
    ultimately have "u = ''github.com:org/repo.git'' \<and> y = CHR ''@'' \<and> v = r"
      using y by (rule split_unique)
    then show "rmatch rex_from_server v (g(''user'' \<mapsto> ''git'' @ CHR ''@'' # u)) (\<lambda>s' g'. Some g') = None"
      using server_missing[OF assms(1)] by simp
  qed
  show ?thesis
    by (simp only: seq_opt inner option.case)
qed

lemma alternatives_fail:
  assumes "take (length a) s \<noteq> a" and "take (length b) s \<noteq> b" and "take (length c) s \<noteq> c"
  shows "rmatch (Seq (Seq (Grp n (Alt (Lit a) (Alt (Lit b) (Lit c)))) X) T) s g k = None"
  using assms by simp

lemma rex_search_commit_link:
  assumes "list_all hex_digit r" and "r \<noteq> []"
  shows "rex_search (''git@github.com:org/repo.git@'' @ r)
           = Some [''user'' \<mapsto> ''git'', ''server'' \<mapsto> ''github.com'', ''author'' \<mapsto> ''org'',
                   ''project'' \<mapsto> ''repo'', ''ext'' \<mapsto> ''.git'', ''rev'' \<mapsto> r]"
proof -
  let ?s = "''git@github.com:org/repo.git@'' @ r"
  let ?K = "\<lambda>(s' :: string) (g' :: groups). Some g'"
  let ?T2 = "Seq (Opt (Seq (Grp ''user'' (Plus dot)) (Lit ''@''))) rex_from_server"
  let ?T1 = "Seq (Opt (Seq (Grp ''protocol'' (Alt (Lit ''ssh'') (Alt (Lit ''https'') (Lit ''http'')))) (Lit ''://''))) ?T2"
  have no_plus: "\<And>y. y \<in> set ?s \<Longrightarrow> y \<noteq> CHR ''+''"
    using hex_run(7)[OF assms(1)] by (auto simp: list_all_iff)
  have vcs: "rmatch (Seq (Seq (Grp ''vcs'' (Plus lower)) (Lit ''+'')) ?T1) ?s Map.empty ?K = None"
    unfolding plus_lit_as_cls by (rule greedy_then_cls_none) (rule no_plus)
  have protocol: "rmatch (Seq (Seq (Grp ''protocol'' (Alt (Lit ''ssh'') (Alt (Lit ''https'') (Lit ''http''))))
                              (Lit ''://'')) ?T2) ?s Map.empty ?K = None"
    by (rule alternatives_fail) simp_all
  have user: "rmatch ?T2 ?s Map.empty ?K
           = Some [''user'' \<mapsto> ''git'', ''server'' \<mapsto> ''github.com'', ''author'' \<mapsto> ''org'',
                   ''project'' \<mapsto> ''repo'', ''ext'' \<mapsto> ''.git'', ''rev'' \<mapsto> r]"
    using assms by (rule user_found)
  have "rmatch ?T1 ?s Map.empty ?K = rmatch ?T2 ?s Map.empty ?K"
    by (simp only: seq_opt[where X = "Seq (Grp ''protocol'' (Alt (Lit ''ssh'') (Alt (Lit ''https'') (Lit ''http'')))) (Lit ''://'')"]
          protocol option.case)
  moreover have "rmatch rex ?s Map.empty ?K = rmatch ?T1 ?s Map.empty ?K"
    unfolding rex_split
    by (simp only: seq_opt[where X = "Seq (Grp ''vcs'' (Plus lower)) (Lit ''+'')"] vcs option.case)
  ultimately show ?thesis
    unfolding rex_search_def using user by (simp only:)
qed

text \<open>
  C2. The input \<open>git@github.com:org/repo.git@\<close> followed by any forty hexadecimal
  digits is parsed into a link with \<open>vcs\<close> \<open>git\<close>, \<open>protocol\<close> \<open>ssh\<close> and the revision
  recognised as a commit. Rendering the long form of this link fails: \<open>long\<close> starts by
  reading \<open>self.link\<close>, an attribute that a link does not have, and raises
  \<open>AttributeError\<close>, as it does for every link.
\<close>

theorem parse_commit_link_long_fails:
  assumes "length r = 40" and "list_all hex_digit r"
  shows "parse (''git@github.com:org/repo.git@'' @ r) ''git'' None None
           = Inr (Some \<lparr>server = ''github.com'', author = ''org'', project = ''repo'',
                        vcs = ''git'', protocol = ''ssh'', user = Some ''git'', ext = Some ''.git'',
                        link_rev = Some r, link_name = Some ''repo''\<rparr>)
       \<and> commit \<lparr>server = ''github.com'', author = ''org'', project = ''repo'',
                   vcs = ''git'', protocol = ''ssh'', user = Some ''git'', ext = Some ''.git'',
                   link_rev = Some r, link_name = Some ''repo''\<rparr> = Some r
       \<and> long \<lparr>server = ''github.com'', author = ''org'', project = ''repo'',
                 vcs = ''git'', protocol = ''ssh'', user = Some ''git'', ext = Some ''.git'',
                 link_rev = Some r, link_name = Some ''repo''\<rparr> = Inl (AttributeError ''link'')
       \<and> (\<forall>l. long l = Inl (AttributeError ''link''))"
proof -
  from assms(1) have ne: "r \<noteq> []" by auto
  have s: "rex_search (''git@github.com:org/repo.git@'' @ r)
           = Some [''user'' \<mapsto> ''git'', ''server'' \<mapsto> ''github.com'', ''author'' \<mapsto> ''org'',
                   ''project'' \<mapsto> ''repo'', ''ext'' \<mapsto> ''.git'', ''rev'' \<mapsto> r]"
    using assms(2) ne by (rule rex_search_commit_link)
  have p: "parse (''git@github.com:org/repo.git@'' @ r) ''git'' None None
           = Inr (Some \<lparr>server = ''github.com'', author = ''org'', project = ''repo'',
                        vcs = ''git'', protocol = ''ssh'', user = Some ''git'', ext = Some ''.git'',
                        link_rev = Some r, link_name = Some ''repo''\<rparr>)"
    unfolding parse_def s by (simp add: VCSLink_init_def)
  have c: "commit \<lparr>server = ''github.com'', author = ''org'', project = ''repo'',
                   vcs = ''git'', protocol = ''ssh'', user = Some ''git'', ext = Some ''.git'',
                   link_rev = Some r, link_name = Some ''repo''\<rparr> = Some r"
    using assms ne by (simp add: commit_def rex_hash_fullmatch_def)
  have l: "long l = Inl (AttributeError ''link'')" for l
    by (simp add: long_def getattr_def)
  from p c l show ?thesis by blast
qed

theorem parse_commit_link_long_fails_witness:
  "length ''0123456789abcdef0123456789ABCDEF01234567'' = 40
   \<and> list_all hex_digit ''0123456789abcdef0123456789ABCDEF01234567''
   \<and> parse ''git@github.com:org/repo.git@0123456789abcdef0123456789ABCDEF01234567'' ''git'' None None
       = Inr (Some \<lparr>server = ''github.com'', author = ''org'', project = ''repo'',
                    vcs = ''git'', protocol = ''ssh'', user = Some ''git'', ext = Some ''.git'',
                    link_rev = Some ''0123456789abcdef0123456789ABCDEF01234567'',
                    link_name = Some ''repo''\<rparr>)
   \<and> commit \<lparr>server = ''github.com'', author = ''org'', project = ''repo'',
               vcs = ''git'', protocol = ''ssh'', user = Some ''git'', ext = Some ''.git'',
               link_rev = Some ''0123456789abcdef0123456789ABCDEF01234567'',
               link_name = Some ''repo''\<rparr>
       = Some ''0123456789abcdef0123456789ABCDEF01234567''
   \<and> long \<lparr>server = ''github.com'', author = ''org'', project = ''repo'',
             vcs = ''git'', protocol = ''ssh'', user = Some ''git'', ext = Some ''.git'',
             link_rev = Some ''0123456789abcdef0123456789ABCDEF01234567'',
             link_name = Some ''repo''\<rparr> = Inl (AttributeError ''link'')"
proof -
  have len: "length ''0123456789abcdef0123456789ABCDEF01234567'' = 40"
    by simp
  have hex: "list_all hex_digit ''0123456789abcdef0123456789ABCDEF01234567''"
    by (simp add: hex_digit_def)
  from parse_commit_link_long_fails[OF len hex] len hex show ?thesis
    by simp
qed

end
